theory Spec2Isabelle
  imports Complex_Main "HOL-Library.Char_ord" "HOL-Library.List_Lexorder" "HOL-Library.Multiset"
begin

section \<open>DProfiler: a hierarchical wall-clock profiler\<close>

text \<open>
  The development embeds \<^verbatim>\<open>DProfiler.h\<close> and \<^verbatim>\<open>DProfiler.cpp\<close>.
  Sections are heap objects linked by raw pointers (\<^verbatim>\<open>parent\<close>, the values of the
  \<^verbatim>\<open>children\<close> map, \<^verbatim>\<open>toplevel\<close>, \<^verbatim>\<open>current\<close>), so the model has
  an explicit store of sections and every dereference is a lookup that can fail.
  The static members of \<^verbatim>\<open>DProfiler\<close> and \<^verbatim>\<open>DProfileSection\<close> are the fields
  of one state record that every operation takes and returns.

  \<^item> \<^verbatim>\<open>double\<close> is modelled by \<^typ>\<open>real\<close>: rounding, infinities and NaN are outside
    the model, and a division by zero is an error of the model.
  \<^item> \<^verbatim>\<open>int\<close> is modelled by \<^typ>\<open>int\<close> with the bound \<open>INT_MAX\<close> checked at every
    increment: signed overflow is undefined behaviour and is an error value.
  \<^item> Every operation is one atomic step of the calling thread, whose identity is an
    argument; \<^verbatim>\<open>lock.Wait()\<close> and \<^verbatim>\<open>lock.Signal()\<close> have no effect in such a
    sequential model. The one exception is \<^verbatim>\<open>SectionPop\<close>, which is also given in
    two parts, split after the write to the static member \<^verbatim>\<open>end_time\<close> that it
    makes outside the lock, so that schedules of several threads can be run.
\<close>

subsection \<open>Data\<close>

type_synonym addr = nat

text \<open>A pointer is \<open>None\<close> (\<^verbatim>\<open>NULL\<close>) or the address of a section.\<close>

type_synonym ptr = "addr option"

text \<open>
  Modelled from the spec: \<^verbatim>\<open>DTime\<close> (\<^verbatim>\<open>DTime.h\<close> is not among the sources) is a clock
  sample; the difference of two samples, read by \<^verbatim>\<open>ToMillis\<close>, is the elapsed time in
  milliseconds. A sample is the real number of milliseconds, a default-constructed
  \<^verbatim>\<open>DTime\<close> is \<open>0\<close> and takes no sample.
\<close>

type_synonym DTime = real

text \<open>
  Modelled from the spec: \<^verbatim>\<open>DThreadContext\<close> (\<^verbatim>\<open>DThread.h\<close> is not among the sources)
  is an opaque thread identity that is comparable for equality.
\<close>

type_synonym DThreadContext = nat

text \<open>
  \<^verbatim>\<open>std::map<const std::string, DProfileSection*>\<close> is a list of pairs in ascending
  key order, the order in which the map is iterated.
\<close>

type_synonym DProfileSections = "(string \<times> ptr) list"

record DProfileSection =
  call_count :: int
  avg_time :: real
  exec_order_id :: int
  timer :: DTime
  parent :: ptr
  name :: string
  children :: DProfileSections

record DProfileContext =
  thread_context :: DThreadContext
  toplevel :: ptr
  current :: ptr

text \<open>
  The store is a list of cells: the address of a section is its index, \<^verbatim>\<open>new\<close> appends
  a cell, \<^verbatim>\<open>delete\<close> empties one. An address is never handed out twice.
  \<open>clock\<close> is the sequence of samples the clock source will return and \<open>ticks\<close> the
  number of samples taken so far.
\<close>

record DProfiler =
  contexts :: "DProfileContext list"
  EXEC_ORDER_ID :: int
  end_time :: DTime
  heap :: "DProfileSection option list"
  clock :: "nat \<Rightarrow> real"
  ticks :: nat

datatype error =
    NullPointer
  | DanglingPointer
  | AssertionFailed
  | SignedOverflow
  | DivisionByZero
  | NonTermination

datatype SORT_BY = SORT_EXECUTION | SORT_TIME

text \<open>The largest value of an \<^verbatim>\<open>int\<close>, which has 32 bits on the platforms of the code.\<close>

definition INT_MAX :: int where
  "INT_MAX = 2147483647"

text \<open>The state after static initialisation, for a given clock.\<close>

definition fresh :: "(nat \<Rightarrow> real) \<Rightarrow> DProfiler" where
  "fresh clk = \<lparr>contexts = [], EXEC_ORDER_ID = 0, end_time = 0, heap = [], clock = clk, ticks = 0\<rparr>"

subsection \<open>Store and map primitives\<close>

definition deref :: "DProfileSection option list \<Rightarrow> ptr \<Rightarrow> error + DProfileSection" where
  "deref h p =
     (case p of
        None \<Rightarrow> Inl NullPointer
      | Some a \<Rightarrow>
          if a < length h then (case h ! a of None \<Rightarrow> Inl DanglingPointer | Some s \<Rightarrow> Inr s)
          else Inl DanglingPointer)"

text \<open>Sequencing of fallible steps: the first error ends the operation.\<close>

definition bind_res :: "error + 'a \<Rightarrow> ('a \<Rightarrow> error + 'b) \<Rightarrow> error + 'b" where
  "bind_res m f = (case m of Inl e \<Rightarrow> Inl e | Inr x \<Rightarrow> f x)"

text \<open>A write through a pointer, \<^verbatim>\<open>p->field = v\<close>: the cell is replaced by \<open>f\<close> of it.\<close>

definition modify :: "ptr \<Rightarrow> (DProfileSection \<Rightarrow> DProfileSection) \<Rightarrow> DProfiler \<Rightarrow> error + DProfiler" where
  "modify p f st =
     bind_res (deref (heap st) p) (\<lambda>s. Inr (st\<lparr>heap := (heap st)[the p := Some (f s)]\<rparr>))"

text \<open>Assignment to a key of a \<^verbatim>\<open>std::map\<close>: replace the value, or insert in key order.\<close>

fun map_assign :: "string \<Rightarrow> 'v \<Rightarrow> (string \<times> 'v) list \<Rightarrow> (string \<times> 'v) list" where
  "map_assign k v [] = [(k, v)]"
| "map_assign k v ((k', v') # m) =
     (if k = k' then (k, v) # m
      else if k < k' then (k, v) # (k', v') # m
      else (k', v') # map_assign k v m)"

text \<open>
  \<^verbatim>\<open>children[name]\<close>: \<^verbatim>\<open>operator[]\<close> returns the stored pointer; for an absent key it
  first inserts a value-initialised (\<^verbatim>\<open>NULL\<close>) entry.
\<close>

definition map_subscript :: "DProfileSections \<Rightarrow> string \<Rightarrow> ptr \<times> DProfileSections" where
  "map_subscript m k =
     (case map_of m k of
        Some p \<Rightarrow> (p, m)
      | None \<Rightarrow> (None, map_assign k None m))"

text \<open>\<^verbatim>\<open>DTime::SetNow\<close> takes the next sample of the clock.\<close>

definition SetNow :: "DProfiler \<Rightarrow> DTime \<times> DProfiler" where
  "SetNow st = (clock st (ticks st), st\<lparr>ticks := Suc (ticks st)\<rparr>)"

subsection \<open>Construction and the registry\<close>

text \<open>
  The object that the constructor \<^verbatim>\<open>DProfileSection()\<close> initialises, \<open>n\<close> being the
  value read from the static counter; the map and the name are empty.
\<close>

definition constructed :: "int \<Rightarrow> DProfileSection" where
  "constructed n =
     \<lparr>call_count = 0, avg_time = 0, exec_order_id = n, timer = 0, parent = None, name = [],
      children = []\<rparr>"

text \<open>
  \<^verbatim>\<open>new DProfileSection()\<close>: a new cell; \<^verbatim>\<open>exec_order_id = EXEC_ORDER_ID++\<close> reads
  and increments the static counter.
\<close>

definition new_DProfileSection :: "DProfiler \<Rightarrow> error + (addr \<times> DProfiler)" where
  "new_DProfileSection st =
     (if EXEC_ORDER_ID st \<ge> INT_MAX then Inl SignedOverflow
      else Inr (length (heap st),
             st\<lparr>heap := heap st @ [Some (constructed (EXEC_ORDER_ID st))],
                EXEC_ORDER_ID := EXEC_ORDER_ID st + 1\<rparr>))"

text \<open>The search loop of \<^verbatim>\<open>GetContext\<close>: the index of the first context of the thread.\<close>

fun find_context :: "DThreadContext \<Rightarrow> DProfileContext list \<Rightarrow> nat option" where
  "find_context t [] = None"
| "find_context t (c # cs) =
     (if t = thread_context c then Some 0
      else (case find_context t cs of None \<Rightarrow> None | Some i \<Rightarrow> Some (Suc i)))"

text \<open>
  \<^verbatim>\<open>GetContext\<close> returns the context of the calling thread \<open>t\<close>, as its index in the
  vector \<^verbatim>\<open>contexts\<close>; when there is none it appends a new context with a new root
  section.
\<close>

definition GetContext :: "DThreadContext \<Rightarrow> DProfiler \<Rightarrow> error + (nat \<times> DProfiler)" where
  "GetContext t st =
     (case find_context t (contexts st) of
        Some i \<Rightarrow> Inr (i, st)
      | None \<Rightarrow>
          (let i = length (contexts st);
               st1 = st\<lparr>contexts := contexts st @
                          [\<lparr>thread_context = t, toplevel = None, current = None\<rparr>]\<rparr>
           in case new_DProfileSection st1 of
                Inl e \<Rightarrow> Inl e
              | Inr (r, st2) \<Rightarrow>
                  Inr (i, st2\<lparr>contexts := (contexts st2)
                                [i := \<lparr>thread_context = t, toplevel = Some r, current = Some r\<rparr>]\<rparr>)))"

definition set_current :: "nat \<Rightarrow> ptr \<Rightarrow> DProfiler \<Rightarrow> DProfiler" where
  "set_current i p st = st\<lparr>contexts := (contexts st)[i := (contexts st ! i)\<lparr>current := p\<rparr>]\<rparr>"

subsection \<open>Push and pop\<close>

text \<open>
  Lines 94 to 101 of \<^verbatim>\<open>SectionPush\<close>: the child of the section at \<open>cur\<close> stored
  under the key \<open>nm\<close>, created when the subscript yields \<^verbatim>\<open>NULL\<close>.
\<close>

definition get_or_create_child :: "addr \<Rightarrow> string \<Rightarrow> DProfiler \<Rightarrow> error + (addr \<times> DProfiler)" where
  "get_or_create_child cur nm st =
     bind_res (deref (heap st) (Some cur)) (\<lambda>cs.
       let (s, m) = map_subscript (children cs) nm
       in bind_res (modify (Some cur) (\<lambda>x. x\<lparr>children := m\<rparr>) st) (\<lambda>st1.
            case s of
              Some a \<Rightarrow> Inr (a, st1)
            | None \<Rightarrow>
                bind_res (new_DProfileSection st1) (\<lambda>(a, st2).
                bind_res (modify (Some a) (\<lambda>x. x\<lparr>parent := Some cur, name := nm\<rparr>) st2) (\<lambda>st3.
                bind_res (modify (Some cur)
                           (\<lambda>x. x\<lparr>children := map_assign nm (Some a) (children x)\<rparr>) st3) (\<lambda>st4.
                Inr (a, st4))))))"

text \<open>
  \<^verbatim>\<open>SectionPush\<close>, with \<open>nm\<close> for the argument \<^verbatim>\<open>name\<close>: the context of the thread,
  the assertion, the child, the move of \<^verbatim>\<open>current\<close>, and the start sample.
\<close>

definition SectionPush :: "DThreadContext \<Rightarrow> string \<Rightarrow> DProfiler \<Rightarrow> error + DProfiler" where
  "SectionPush t nm st =
     bind_res (GetContext t st) (\<lambda>(i, st1).
       case current (contexts st1 ! i) of
         None \<Rightarrow> Inl AssertionFailed
       | Some cur \<Rightarrow>
           bind_res (get_or_create_child cur nm st1) (\<lambda>(s, st2).
             let st3 = set_current i (Some s) st2;
                 (now, st4) = SetNow st3
             in modify (Some s) (\<lambda>x. x\<lparr>timer := now\<rparr>) st4))"

text \<open>
  The declaration \<^verbatim>\<open>static void SectionPush( const std::string& name = "unlabelled section" )\<close>:
  a call passes an argument or none, and the default argument takes the place of a
  missing one.
\<close>

definition SectionPush_call :: "DThreadContext \<Rightarrow> string option \<Rightarrow> DProfiler \<Rightarrow> error + DProfiler" where
  "SectionPush_call t arg st =
     SectionPush t (case arg of None \<Rightarrow> ''unlabelled section'' | Some nm \<Rightarrow> nm) st"

text \<open>
  Lines 134 to 136 of \<^verbatim>\<open>SectionPop\<close>, for the elapsed time \<open>time\<close>. In
  \<^verbatim>\<open>time + s->avg_time * s->call_count++\<close> the product uses the count before the
  increment, the division the count after it.
\<close>

definition record_time :: "real \<Rightarrow> DProfileSection \<Rightarrow> error + DProfileSection" where
  "record_time time s =
     (if call_count s \<ge> INT_MAX then Inl SignedOverflow
      else if call_count s + 1 = 0 then Inl DivisionByZero
      else
        (let total_time = time + avg_time s * real_of_int (call_count s)
         in Inr (s\<lparr>call_count := call_count s + 1,
                   avg_time := total_time / real_of_int (call_count s + 1)\<rparr>)))"

text \<open>
  \<^verbatim>\<open>SectionPop\<close>. The stop sample is written to the static member \<^verbatim>\<open>end_time\<close>
  before the context is looked up.
\<close>

definition SectionPop :: "DThreadContext \<Rightarrow> DProfiler \<Rightarrow> error + DProfiler" where
  "SectionPop t st =
     (let (now, st0) = SetNow st;
          st1 = st0\<lparr>end_time := now\<rparr>
      in bind_res (GetContext t st1) (\<lambda>(i, st2).
           let s = current (contexts st2 ! i)
           in bind_res (deref (heap st2) s) (\<lambda>sec.
                case parent sec of
                  None \<Rightarrow> Inr st2
                | Some p \<Rightarrow>
                    bind_res (record_time (end_time st2 - timer sec) sec) (\<lambda>sec'.
                    bind_res (modify s (\<lambda>x. sec') st2) (\<lambda>st3.
                    Inr (set_current i (parent sec) st3))))))"

text \<open>
  The two parts of \<^verbatim>\<open>SectionPop\<close> between which another thread can run: line 115,
  the write of the stop sample to the static member, is outside the lock that
  \<^verbatim>\<open>GetContext\<close> takes, and lines 117 to 141 read the static member back at line 130.
\<close>

definition SectionPop_sample :: "DProfiler \<Rightarrow> DProfiler" where
  "SectionPop_sample st = (let (now, st0) = SetNow st in st0\<lparr>end_time := now\<rparr>)"

definition SectionPop_rest :: "DThreadContext \<Rightarrow> DProfiler \<Rightarrow> error + DProfiler" where
  "SectionPop_rest t st1 =
     bind_res (GetContext t st1) (\<lambda>(i, st2).
       let s = current (contexts st2 ! i)
       in bind_res (deref (heap st2) s) (\<lambda>sec.
            case parent sec of
              None \<Rightarrow> Inr st2
            | Some p \<Rightarrow>
                bind_res (record_time (end_time st2 - timer sec) sec) (\<lambda>sec'.
                bind_res (modify s (\<lambda>x. sec') st2) (\<lambda>st3.
                Inr (set_current i (parent sec) st3)))))"

subsection \<open>Clear\<close>

text \<open>
  \<^verbatim>\<open>delete p\<close> on a section runs the destructor, which deletes every child in the
  order of the map, and then releases the cell; \<^verbatim>\<open>delete NULL\<close> does nothing.
  The recursion follows the pointers of the store, so it is bounded by \<open>fuel\<close>:
  \<^verbatim>\<open>Clear\<close> gives it the number of cells of the store, and a chain of nested
  destructor calls longer than that visits a cell twice and never ends.
\<close>

fun delete_section :: "nat \<Rightarrow> ptr \<Rightarrow> DProfileSection option list \<Rightarrow> error + DProfileSection option list"
  and delete_children :: "nat \<Rightarrow> DProfileSections \<Rightarrow> DProfileSection option list \<Rightarrow> error + DProfileSection option list"
where
  "delete_section fuel None h = Inr h"
| "delete_section 0 (Some a) h = Inl NonTermination"
| "delete_section (Suc fuel) (Some a) h =
     bind_res (deref h (Some a)) (\<lambda>s.
     bind_res (delete_children fuel (children s) h) (\<lambda>h'.
     bind_res (deref h' (Some a)) (\<lambda>_. Inr (h'[a := None]))))"
| "delete_children fuel [] h = Inr h"
| "delete_children fuel ((k, p) # m) h =
     bind_res (delete_section fuel p h) (\<lambda>h'. delete_children fuel m h')"

text \<open>\<^verbatim>\<open>delete contexts[i]\<close> for every \<open>i\<close>: the destructor of a context deletes its root.\<close>

fun delete_contexts :: "nat \<Rightarrow> DProfileContext list \<Rightarrow> DProfileSection option list \<Rightarrow> error + DProfileSection option list" where
  "delete_contexts fuel [] h = Inr h"
| "delete_contexts fuel (c # cs) h =
     bind_res (delete_section fuel (toplevel c) h) (\<lambda>h'. delete_contexts fuel cs h')"

definition Clear :: "DProfiler \<Rightarrow> error + DProfiler" where
  "Clear st =
     bind_res (delete_contexts (length (heap st)) (contexts st) (heap st)) (\<lambda>h.
       Inr (st\<lparr>heap := h, contexts := []\<rparr>))"

subsection \<open>Display\<close>

text \<open>
  One printed line of \<^verbatim>\<open>DProfileSection::Display\<close>: the arguments of its
  \<^verbatim>\<open>printf\<close>. The formatting of the numbers is not modelled.
\<close>

record row =
  row_name :: string
  row_total :: real
  row_average :: real
  row_count :: int

definition reverse_time_comparator :: "DProfileSection \<Rightarrow> DProfileSection \<Rightarrow> bool" where
  "reverse_time_comparator a b \<longleftrightarrow>
     avg_time a * real_of_int (call_count a) > avg_time b * real_of_int (call_count b)"

definition execution_order_comparator :: "DProfileSection \<Rightarrow> DProfileSection \<Rightarrow> bool" where
  "execution_order_comparator a b \<longleftrightarrow> exec_order_id a < exec_order_id b"

text \<open>
  The vector holds pointers and the comparators read the sections they point to. The
  model pairs each pointer with its section when the vector is filled; a pointer that
  cannot be dereferenced is an error there, as it is in the comparator or in the loop.
\<close>

fun load_all :: "DProfileSection option list \<Rightarrow> ptr list \<Rightarrow> error + (addr \<times> DProfileSection) list" where
  "load_all h [] = Inr []"
| "load_all h (p # ps) =
     bind_res (deref h p) (\<lambda>s.
     bind_res (load_all h ps) (\<lambda>v. Inr ((the p, s) # v)))"

text \<open>
  \<^verbatim>\<open>std::sort\<close> is not part of the sources; it is the parameter \<open>srt\<close>, a function
  from a comparator and a vector to the sorted vector. \<open>std_sort\<close> is what the C++
  standard promises of it for a comparator that is a strict weak ordering: the result
  is a permutation of the argument in which no element is lt than an earlier one.
\<close>

type_synonym 'a sorter = "('a \<Rightarrow> 'a \<Rightarrow> bool) \<Rightarrow> 'a list \<Rightarrow> 'a list"

definition strict_weak_ordering :: "('a \<Rightarrow> 'a \<Rightarrow> bool) \<Rightarrow> bool" where
  "strict_weak_ordering lt \<longleftrightarrow>
     (\<forall>x. \<not> lt x x) \<and>
     (\<forall>x y z. lt x y \<and> lt y z \<longrightarrow> lt x z) \<and>
     (\<forall>x y z. \<not> lt x y \<and> \<not> lt y z \<longrightarrow> \<not> lt x z)"

definition std_sort :: "'a sorter \<Rightarrow> bool" where
  "std_sort srt \<longleftrightarrow>
     (\<forall>lt xs. strict_weak_ordering lt \<longrightarrow>
        mset (srt lt xs) = mset xs \<and> sorted_wrt (\<lambda>x y. \<not> lt y x) (srt lt xs))"

text \<open>An insertion sort, as one function that \<open>std_sort\<close> holds of.\<close>

fun insert_by :: "('a \<Rightarrow> 'a \<Rightarrow> bool) \<Rightarrow> 'a \<Rightarrow> 'a list \<Rightarrow> 'a list" where
  "insert_by lt x [] = [x]"
| "insert_by lt x (y # ys) = (if lt y x then y # insert_by lt x ys else x # y # ys)"

fun insertion_sort :: "'a sorter" where
  "insertion_sort lt [] = []"
| "insertion_sort lt (x # xs) = insert_by lt x (insertion_sort lt xs)"

text \<open>
  Lines 195 to 211 of \<^verbatim>\<open>DProfileSection::Display\<close>: the vector of the children of
  the section \<open>s\<close>, filled in the order of the map and then sorted.
\<close>

definition children_vect ::
  "(addr \<times> DProfileSection) sorter \<Rightarrow> DProfileSection option list \<Rightarrow> DProfileSection \<Rightarrow> SORT_BY
    \<Rightarrow> error + (addr \<times> DProfileSection) list" where
  "children_vect srt h s sort_by =
     bind_res (load_all h (map snd (children s))) (\<lambda>v.
       Inr (case sort_by of
              SORT_TIME \<Rightarrow> srt (\<lambda>a b. reverse_time_comparator (snd a) (snd b)) v
            | SORT_EXECUTION \<Rightarrow> srt (\<lambda>a b. execution_order_comparator (snd a) (snd b)) v))"

text \<open>The decorated name and the line printed for the child \<open>sect\<close>.\<close>

definition decorated_name :: "string \<Rightarrow> DProfileSection \<Rightarrow> string" where
  "decorated_name prefix sect =
     (if length prefix > 1 then take (length prefix - 2) prefix @ ''+ '' @ name sect
      else name sect)"

definition row_of :: "string \<Rightarrow> DProfileSection \<Rightarrow> row" where
  "row_of prefix sect =
     \<lparr>row_name = decorated_name prefix sect,
      row_total = avg_time sect * real_of_int (call_count sect),
      row_average = avg_time sect,
      row_count = call_count sect\<rparr>"

text \<open>The prefix handed to the child; \<open>is_last\<close> is \<^verbatim>\<open>i==children_vect.size()-1\<close>.\<close>

definition next_prefix :: "string \<Rightarrow> bool \<Rightarrow> string" where
  "next_prefix prefix is_last =
     (if length prefix > 1 \<and> is_last then take (length prefix - 2) prefix @ ''  '' else prefix)"

text \<open>
  \<^verbatim>\<open>DProfileSection::Display\<close> on the section at \<open>a\<close>, returning the printed lines,
  and its loop over the sorted vector. The recursion follows the pointers of the store
  and is bounded by \<open>fuel\<close>, as that of the destructor is.
\<close>

fun DProfileSection_Display ::
    "(addr \<times> DProfileSection) sorter \<Rightarrow> nat \<Rightarrow> DProfileSection option list \<Rightarrow> addr \<Rightarrow> string
      \<Rightarrow> SORT_BY \<Rightarrow> error + row list"
  and Display_loop ::
    "(addr \<times> DProfileSection) sorter \<Rightarrow> nat \<Rightarrow> DProfileSection option list \<Rightarrow> string
      \<Rightarrow> SORT_BY \<Rightarrow> (addr \<times> DProfileSection) list \<Rightarrow> error + row list"
where
  "DProfileSection_Display srt 0 h a prefix sort_by = Inl NonTermination"
| "DProfileSection_Display srt (Suc fuel) h a prefix sort_by =
     bind_res (deref h (Some a)) (\<lambda>s.
     bind_res (children_vect srt h s sort_by) (\<lambda>v.
       Display_loop srt fuel h prefix sort_by v))"
| "Display_loop srt fuel h prefix sort_by [] = Inr []"
| "Display_loop srt fuel h prefix sort_by ((a, sect) # rest) =
     bind_res (DProfileSection_Display srt fuel h a
                (next_prefix prefix (rest = []) @ ''| '') sort_by) (\<lambda>below.
     bind_res (Display_loop srt fuel h prefix sort_by rest) (\<lambda>after.
       Inr (row_of prefix sect # below @ after)))"

text \<open>
  \<^verbatim>\<open>DProfiler::Display\<close>: the header lines, then for every context a thread line and
  the tree under its root. The thread line prints an address, which the model replaces
  by the thread identity.
\<close>

datatype line = Rule | Title SORT_BY | Columns | Thread DThreadContext | Line row

fun Display_contexts ::
  "(addr \<times> DProfileSection) sorter \<Rightarrow> DProfileSection option list \<Rightarrow> SORT_BY
    \<Rightarrow> DProfileContext list \<Rightarrow> error + line list" where
  "Display_contexts srt h sort_by [] = Inr []"
| "Display_contexts srt h sort_by (c # cs) =
     (case toplevel c of
        None \<Rightarrow> Inl NullPointer
      | Some r \<Rightarrow>
          bind_res (DProfileSection_Display srt (length h) h r ''| '' sort_by) (\<lambda>rows.
          bind_res (Display_contexts srt h sort_by cs) (\<lambda>rest.
            Inr (Thread (thread_context c) # map Line rows @ rest))))"

definition Display :: "(addr \<times> DProfileSection) sorter \<Rightarrow> SORT_BY \<Rightarrow> DProfiler \<Rightarrow> error + line list" where
  "Display srt sort_by st =
     bind_res (Display_contexts srt (heap st) sort_by (contexts st)) (\<lambda>ls.
       Inr ([Rule, Title sort_by, Columns, Rule] @ ls @ [Rule]))"

subsection \<open>Traces\<close>

datatype call = Push DThreadContext string | Pop DThreadContext | ClearAll

fun step :: "call \<Rightarrow> DProfiler \<Rightarrow> error + DProfiler" where
  "step (Push t nm) st = SectionPush t nm st"
| "step (Pop t) st = SectionPop t st"
| "step ClearAll st = Clear st"

fun run :: "call list \<Rightarrow> DProfiler \<Rightarrow> error + DProfiler" where
  "run [] st = Inr st"
| "run (c # cs) st = bind_res (step c st) (run cs)"

text \<open>
  Schedules of several threads. A call runs as a whole, or a pop runs in its two parts with
  the steps of other threads between them.
\<close>

datatype event = Whole call | PopSample DThreadContext | PopRest DThreadContext

fun step_event :: "event \<Rightarrow> DProfiler \<Rightarrow> error + DProfiler" where
  "step_event (Whole c) st = step c st"
| "step_event (PopSample t) st = Inr (SectionPop_sample st)"
| "step_event (PopRest t) st = SectionPop_rest t st"

fun run_events :: "event list \<Rightarrow> DProfiler \<Rightarrow> error + DProfiler" where
  "run_events [] st = Inr st"
| "run_events (e # es) st = bind_res (step_event e st) (run_events es)"

subsection \<open>The tree invariant\<close>

text \<open>The cell at an address; \<open>None\<close> for an address that is not allocated.\<close>

definition cell :: "DProfileSection option list \<Rightarrow> addr \<Rightarrow> DProfileSection option" where
  "cell h a = (if a < length h then h ! a else None)"

text \<open>\<open>reach h r a\<close>: the section at \<open>a\<close> is reached from \<open>r\<close> through \<^verbatim>\<open>children\<close> maps.\<close>

inductive reach :: "DProfileSection option list \<Rightarrow> addr \<Rightarrow> addr \<Rightarrow> bool"
  for h :: "DProfileSection option list" and r :: addr
where
  reach_root: "reach h r r"
| reach_child: "reach h r a \<Longrightarrow> cell h a = Some s \<Longrightarrow> map_of (children s) k = Some (Some c)
     \<Longrightarrow> reach h r c"

text \<open>
  What the invariant says of one section of the tree under \<open>r\<close>: it is allocated; unless
  it is the root, its parent is a section of the tree whose map holds it under its
  own name; every entry of its map points to a section whose parent it is, and whose
  name is the key.
\<close>

definition node_ok :: "DProfileSection option list \<Rightarrow> addr \<Rightarrow> addr \<Rightarrow> bool" where
  "node_ok h r a \<longleftrightarrow>
     (\<exists>s. cell h a = Some s \<and>
        (a \<noteq> r \<longrightarrow>
           (\<exists>p ps. parent s = Some p \<and> reach h r p \<and> cell h p = Some ps \<and>
                   map_of (children ps) (name s) = Some (Some a))) \<and>
        (\<forall>k v. map_of (children s) k = Some v \<longrightarrow>
           (\<exists>c cs. v = Some c \<and> cell h c = Some cs \<and> parent cs = Some a \<and> name cs = k)))"

definition tree_at :: "DProfileSection option list \<Rightarrow> addr \<Rightarrow> bool" where
  "tree_at h r \<longleftrightarrow>
     (\<exists>rs. cell h r = Some rs \<and> parent rs = None) \<and> (\<forall>a. reach h r a \<longrightarrow> node_ok h r a)"

text \<open>
  The invariant of a state: every context has a root with a tree under it, and its
  \<^verbatim>\<open>current\<close> points into that tree.
\<close>

definition context_ok :: "DProfileSection option list \<Rightarrow> DProfileContext \<Rightarrow> bool" where
  "context_ok h c \<longleftrightarrow>
     (\<exists>r cu. toplevel c = Some r \<and> current c = Some cu \<and> tree_at h r \<and> reach h r cu)"

definition tree_inv :: "DProfiler \<Rightarrow> bool" where
  "tree_inv st \<longleftrightarrow> (\<forall>c \<in> set (contexts st). context_ok (heap st) c)"

text \<open>
  \<open>descend h a ks\<close> follows the keys \<open>ks\<close> from the section at \<open>a\<close> through
  \<^verbatim>\<open>children\<close> maps. The tree shape is that every section under a root is the end of
  exactly one list of keys.
\<close>

fun descend :: "DProfileSection option list \<Rightarrow> addr \<Rightarrow> string list \<Rightarrow> addr option" where
  "descend h a [] = Some a"
| "descend h a (k # ks) =
     (case cell h a of
        None \<Rightarrow> None
      | Some s \<Rightarrow> (case map_of (children s) k of Some (Some c) \<Rightarrow> descend h c ks | _ \<Rightarrow> None))"

text \<open>
  Further invariants of the states that the operations reach: the keys of every
  \<^verbatim>\<open>children\<close> map are strictly ascending (so that the map holds a key once), the
  roots of the contexts are pairwise different, and no call count is negative.
\<close>

definition keys_distinct :: "DProfileSection option list \<Rightarrow> bool" where
  "keys_distinct h \<longleftrightarrow> (\<forall>a s. cell h a = Some s \<longrightarrow> distinct (map fst (children s)))"

definition keys_ascending :: "DProfileSection option list \<Rightarrow> bool" where
  "keys_ascending h \<longleftrightarrow> (\<forall>a s. cell h a = Some s \<longrightarrow> sorted_wrt (<) (map fst (children s)))"

definition counts_ok :: "DProfileSection option list \<Rightarrow> bool" where
  "counts_ok h \<longleftrightarrow> (\<forall>a s. cell h a = Some s \<longrightarrow> 0 \<le> call_count s)"

definition state_inv :: "DProfiler \<Rightarrow> bool" where
  "state_inv st \<longleftrightarrow>
     tree_inv st \<and> keys_ascending (heap st) \<and> counts_ok (heap st) \<and>
     distinct (map toplevel (contexts st))"

text \<open>\<open>freed S h h'\<close>: the store \<open>h'\<close> is \<open>h\<close> with the cells at the addresses in \<open>S\<close> released.\<close>

definition freed :: "addr set \<Rightarrow> DProfileSection option list \<Rightarrow> DProfileSection option list \<Rightarrow> bool" where
  "freed S h h' \<longleftrightarrow>
     length h' = length h \<and> (\<forall>x. cell h' x = (if x \<in> S then None else cell h x))"

subsection \<open>Observations\<close>

text \<open>
  The section found from the root of the context of thread \<open>t\<close> along the labels
  \<open>ks\<close>, and what a test reads of the outcome of a trace: the call count and the
  average of that section, and the number of clock samples taken.
\<close>

definition section_at :: "DProfiler \<Rightarrow> DThreadContext \<Rightarrow> string list \<Rightarrow> DProfileSection option" where
  "section_at st t ks =
     (case find_context t (contexts st) of
        None \<Rightarrow> None
      | Some i \<Rightarrow>
          (case toplevel (contexts st ! i) of
             None \<Rightarrow> None
           | Some r \<Rightarrow> (case descend (heap st) r ks of None \<Rightarrow> None | Some a \<Rightarrow> cell (heap st) a)))"

definition stats_at :: "error + DProfiler \<Rightarrow> DThreadContext \<Rightarrow> string list \<Rightarrow> (int \<times> real) option" where
  "stats_at res t ks =
     (case res of
        Inl e \<Rightarrow> None
      | Inr st \<Rightarrow> map_option (\<lambda>s. (call_count s, avg_time s)) (section_at st t ks))"

definition samples_taken :: "error + DProfiler \<Rightarrow> nat option" where
  "samples_taken res = (case res of Inl e \<Rightarrow> None | Inr st \<Rightarrow> Some (ticks st))"

text \<open>The value of the static member \<^verbatim>\<open>end_time\<close> after a trace.\<close>

definition static_end_time :: "error + DProfiler \<Rightarrow> DTime option" where
  "static_end_time res = (case res of Inl e \<Rightarrow> None | Inr st \<Rightarrow> Some (end_time st))"

text \<open>The allocated sections with a given name.\<close>

definition sections_named :: "DProfiler \<Rightarrow> string \<Rightarrow> DProfileSection list" where
  "sections_named st nm = filter (\<lambda>s. name s = nm) (List.map_filter id (heap st))"

text \<open>A mock clock: the given samples in order, and \<open>0\<close> once they are used up.\<close>

definition mock_clock :: "real list \<Rightarrow> nat \<Rightarrow> real" where
  "mock_clock xs n = (if n < length xs then xs ! n else 0)"

subsection \<open>The history of a trace\<close>

text \<open>
  The calls of a trace after its last clear, and the tests whether a call is a push of
  thread \<open>t\<close>, or a push or a pop of thread \<open>t\<close>.
\<close>

definition since_clear :: "call list \<Rightarrow> call list" where
  "since_clear tr = rev (takeWhile (\<lambda>c. c \<noteq> ClearAll) (rev tr))"

fun is_push_of :: "DThreadContext \<Rightarrow> call \<Rightarrow> bool" where
  "is_push_of t (Push t' nm) \<longleftrightarrow> t' = t"
| "is_push_of t (Pop t') \<longleftrightarrow> False"
| "is_push_of t ClearAll \<longleftrightarrow> False"

fun is_call_of :: "DThreadContext \<Rightarrow> call \<Rightarrow> bool" where
  "is_call_of t (Push t' nm) \<longleftrightarrow> t' = t"
| "is_call_of t (Pop t') \<longleftrightarrow> t' = t"
| "is_call_of t ClearAll \<longleftrightarrow> False"

text \<open>Whether the registry holds a context of thread \<open>t\<close> after a trace.\<close>

definition has_context :: "error + DProfiler \<Rightarrow> DThreadContext \<Rightarrow> bool" where
  "has_context res t \<longleftrightarrow>
     (case res of Inl e \<Rightarrow> False | Inr st \<Rightarrow> find_context t (contexts st) \<noteq> None)"

subsection \<open>The durations recorded at a section\<close>

text \<open>
  The elapsed time that a pop of thread \<open>t\<close> in the state \<open>st\<close> records at the section at
  \<open>a\<close>: the stop sample minus the start stamp of the section, when the section is the
  current one of the thread and has a parent, and nothing otherwise. \<open>durations_at\<close>
  collects these along a trace, in order.
\<close>

definition pop_duration :: "addr \<Rightarrow> DThreadContext \<Rightarrow> DProfiler \<Rightarrow> real list" where
  "pop_duration a t st =
     (case find_context t (contexts st) of
        None \<Rightarrow> []
      | Some i \<Rightarrow>
          if current (contexts st ! i) = Some a then
            (case cell (heap st) a of
               None \<Rightarrow> []
             | Some s \<Rightarrow> if parent s = None then [] else [clock st (ticks st) - timer s])
          else [])"

fun call_duration :: "addr \<Rightarrow> call \<Rightarrow> DProfiler \<Rightarrow> real list" where
  "call_duration a (Pop t) st = pop_duration a t st"
| "call_duration a (Push t nm) st = []"
| "call_duration a ClearAll st = []"

fun durations_at :: "addr \<Rightarrow> call list \<Rightarrow> DProfiler \<Rightarrow> real list" where
  "durations_at a [] st = []"
| "durations_at a (c # cs) st =
     (case step c st of
        Inl e \<Rightarrow> []
      | Inr st' \<Rightarrow> call_duration a c st @ durations_at a cs st')"

text \<open>
  The call count of the section at an address and its total time, the product that
  \<^verbatim>\<open>Display\<close> prints; both are zero for an address that is not allocated.
\<close>

definition totals :: "DProfileSection option list \<Rightarrow> addr \<Rightarrow> int \<times> real" where
  "totals h a =
     (case cell h a of
        None \<Rightarrow> (0, 0)
      | Some s \<Rightarrow> (call_count s, avg_time s * real_of_int (call_count s)))"

subsection \<open>Example states\<close>

text \<open>
  A fresh profiler with the mock clock 0, 5, 10, 20; the state after the registry lookup of
  thread 0 in it; the state after push("A") by thread 0; and the state after the pop that
  follows.
\<close>

definition ex_fresh :: DProfiler where
  "ex_fresh = fresh (mock_clock [0, 5, 10, 20])"

definition ex_root :: DProfiler where
  "ex_root =
     \<lparr>contexts = [\<lparr>thread_context = 0, toplevel = Some 0, current = Some 0\<rparr>],
      EXEC_ORDER_ID = 1, end_time = 0,
      heap = [Some \<lparr>call_count = 0, avg_time = 0, exec_order_id = 0, timer = 0,
                    parent = None, name = [], children = []\<rparr>],
      clock = mock_clock [0, 5, 10, 20], ticks = 0\<rparr>"

definition ex_pushed :: DProfiler where
  "ex_pushed =
     \<lparr>contexts = [\<lparr>thread_context = 0, toplevel = Some 0, current = Some 1\<rparr>],
      EXEC_ORDER_ID = 2, end_time = 0,
      heap = [Some \<lparr>call_count = 0, avg_time = 0, exec_order_id = 0, timer = 0,
                    parent = None, name = [], children = [(''A'', Some 1)]\<rparr>,
              Some \<lparr>call_count = 0, avg_time = 0, exec_order_id = 1, timer = 0,
                    parent = Some 0, name = ''A'', children = []\<rparr>],
      clock = mock_clock [0, 5, 10, 20], ticks = 1\<rparr>"

definition ex_popped :: DProfiler where
  "ex_popped =
     \<lparr>contexts = [\<lparr>thread_context = 0, toplevel = Some 0, current = Some 0\<rparr>],
      EXEC_ORDER_ID = 2, end_time = 5,
      heap = [Some \<lparr>call_count = 0, avg_time = 0, exec_order_id = 0, timer = 0,
                    parent = None, name = [], children = [(''A'', Some 1)]\<rparr>,
              Some \<lparr>call_count = 1, avg_time = 5, exec_order_id = 1, timer = 0,
                    parent = Some 0, name = ''A'', children = []\<rparr>],
      clock = mock_clock [0, 5, 10, 20], ticks = 2\<rparr>"

text \<open>The state after a clear in the state \<open>ex_popped\<close>.\<close>

definition ex_cleared :: DProfiler where
  "ex_cleared =
     \<lparr>contexts = [], EXEC_ORDER_ID = 2, end_time = 5, heap = [None, None],
      clock = mock_clock [0, 5, 10, 20], ticks = 2\<rparr>"

text \<open>The state after a second push("A") by thread 0.\<close>

definition ex_repushed :: DProfiler where
  "ex_repushed =
     \<lparr>contexts = [\<lparr>thread_context = 0, toplevel = Some 0, current = Some 1\<rparr>],
      EXEC_ORDER_ID = 2, end_time = 5,
      heap = [Some \<lparr>call_count = 0, avg_time = 0, exec_order_id = 0, timer = 0,
                    parent = None, name = [], children = [(''A'', Some 1)]\<rparr>,
              Some \<lparr>call_count = 1, avg_time = 5, exec_order_id = 1, timer = 10,
                    parent = Some 0, name = ''A'', children = []\<rparr>],
      clock = mock_clock [0, 5, 10, 20], ticks = 3\<rparr>"

text \<open>
  The sections after the trace push("fast"); pop(); push("slow"); pop() of thread 0 with the
  clock 0, 10, 10, 110, and the store that holds them.
\<close>

definition ex_fast :: DProfileSection where
  "ex_fast = \<lparr>call_count = 1, avg_time = 10, exec_order_id = 1, timer = 0,
              parent = Some 0, name = ''fast'', children = []\<rparr>"

definition ex_slow :: DProfileSection where
  "ex_slow = \<lparr>call_count = 1, avg_time = 100, exec_order_id = 2, timer = 10,
              parent = Some 0, name = ''slow'', children = []\<rparr>"

definition ex_top :: DProfileSection where
  "ex_top = \<lparr>call_count = 0, avg_time = 0, exec_order_id = 0, timer = 0,
             parent = None, name = [], children = [(''fast'', Some 1), (''slow'', Some 2)]\<rparr>"

definition ex_store :: "DProfileSection option list" where
  "ex_store = [Some ex_top, Some ex_fast, Some ex_slow]"

text \<open>
  The section "A" after the trace push("A"); pop(); push("A"); pop() of thread 0 on a fresh
  profiler with the clock 0, 5, 10, 20, and the state after that trace.
\<close>

definition ex_A :: DProfileSection where
  "ex_A = \<lparr>call_count = 2, avg_time = 15 / 2, exec_order_id = 1, timer = 10,
           parent = Some 0, name = ''A'', children = []\<rparr>"

definition ex_twice :: DProfiler where
  "ex_twice =
     \<lparr>contexts = [\<lparr>thread_context = 0, toplevel = Some 0, current = Some 0\<rparr>],
      EXEC_ORDER_ID = 2, end_time = 20,
      heap = [Some \<lparr>call_count = 0, avg_time = 0, exec_order_id = 0, timer = 0,
                    parent = None, name = [], children = [(''A'', Some 1)]\<rparr>,
              Some ex_A],
      clock = mock_clock [0, 5, 10, 20], ticks = 4\<rparr>"

section \<open>Properties\<close>

subsection \<open>Store, maps and the registry\<close>

lemma bind_res_simps [simp]: "bind_res (Inl e) f = Inl e" "bind_res (Inr x) f = f x"
  by (simp_all add: bind_res_def)

lemma bind_res_Inr: "bind_res m f = Inr y \<longleftrightarrow> (\<exists>x. m = Inr x \<and> f x = Inr y)"
  by (cases m) simp_all

lemma deref_cell: "deref h (Some a) = (case cell h a of None \<Rightarrow> Inl DanglingPointer | Some s \<Rightarrow> Inr s)"
  by (simp add: deref_def cell_def)

lemma deref_Inr: "deref h p = Inr s \<longleftrightarrow> (\<exists>a. p = Some a \<and> cell h a = Some s)"
  by (auto simp: deref_def cell_def split: option.splits)

lemma cell_Some_less: "cell h a = Some s \<Longrightarrow> a < length h"
  by (simp add: cell_def split: if_splits)

lemma cell_update: "cell (h[a := x]) b = (if b = a \<and> a < length h then x else cell h b)"
  by (simp add: cell_def)

lemma cell_append: "cell (h @ [x]) b = (if b = length h then x else cell h b)"
  by (auto simp: cell_def nth_append)

lemma map_of_map_assign: "map_of (map_assign k v m) = (map_of m)(k \<mapsto> v)"
  by (induction m) (auto simp: fun_eq_iff)

lemma map_assign_twice: "map_assign k v (map_assign k w m) = map_assign k v m"
  by (induction m) auto

lemma find_context_Some: "find_context t cs = Some i \<Longrightarrow> i < length cs \<and> thread_context (cs ! i) = t"
  by (induction cs arbitrary: i) (auto split: if_splits option.splits)

lemma find_context_None: "find_context t cs = None \<longleftrightarrow> t \<notin> thread_context ` set cs"
  by (induction cs) (auto split: option.splits)

lemma find_context_append:
  "find_context t (cs @ ds) =
     (case find_context t cs of Some i \<Rightarrow> Some i
      | None \<Rightarrow> (case find_context t ds of None \<Rightarrow> None | Some i \<Rightarrow> Some (length cs + i)))"
  by (induction cs) (auto split: option.splits)

lemma find_context_update_current:
  "find_context t (cs[i := (cs ! i)\<lparr>current := p\<rparr>]) = find_context t cs"
proof (induction cs arbitrary: i)
  case Nil
  then show ?case by simp
next
  case (Cons c cs)
  then show ?case by (cases i) auto
qed

lemma modify_Inr:
  "modify p f st = Inr st' \<longleftrightarrow>
     (\<exists>a s. p = Some a \<and> cell (heap st) a = Some s \<and> st' = st\<lparr>heap := (heap st)[a := Some (f s)]\<rparr>)"
  by (auto simp: modify_def bind_res_Inr deref_Inr)

lemma modify_cell:
  "cell (heap st) a = Some s \<Longrightarrow> modify (Some a) f st = Inr (st\<lparr>heap := (heap st)[a := Some (f s)]\<rparr>)"
  by (simp add: modify_Inr)

lemma list_update_same_cell: "cell h a = Some s \<Longrightarrow> h[a := Some s] = h"
  by (metis cell_def list_update_id option.distinct(1))

lemma GetContext_found:
  "find_context t (contexts st) = Some i \<Longrightarrow> GetContext t st = Inr (i, st)"
  by (simp add: GetContext_def)

lemma GetContext_new:
  assumes "find_context t (contexts st) = None" and "EXEC_ORDER_ID st < INT_MAX"
  shows "GetContext t st = Inr (length (contexts st),
           st\<lparr>heap := heap st @ [Some (constructed (EXEC_ORDER_ID st))],
              EXEC_ORDER_ID := EXEC_ORDER_ID st + 1,
              contexts := contexts st @
                [\<lparr>thread_context = t, toplevel = Some (length (heap st)),
                  current = Some (length (heap st))\<rparr>]\<rparr>)"
  using assms by (simp add: GetContext_def new_DProfileSection_def Let_def)

lemma GetContext_new_overflow:
  assumes "find_context t (contexts st) = None" and "\<not> EXEC_ORDER_ID st < INT_MAX"
  shows "GetContext t st = Inl SignedOverflow"
  using assms by (simp add: GetContext_def new_DProfileSection_def Let_def)

lemma get_child_found:
  assumes "cell (heap st) cur = Some cs" and "map_of (children cs) nm = Some (Some a)"
  shows "get_or_create_child cur nm st = Inr (a, st)"
  using assms
  by (simp add: get_or_create_child_def deref_cell map_subscript_def modify_cell
      list_update_same_cell)

lemma get_child_created:
  assumes "cell (heap st) cur = Some cs" and "map_of (children cs) nm = None"
    and "EXEC_ORDER_ID st < INT_MAX"
  shows "get_or_create_child cur nm st =
     Inr (length (heap st),
          st\<lparr>heap := (heap st)[cur := Some (cs\<lparr>children := map_assign nm (Some (length (heap st))) (children cs)\<rparr>)]
                      @ [Some ((constructed (EXEC_ORDER_ID st))\<lparr>parent := Some cur, name := nm\<rparr>)],
             EXEC_ORDER_ID := EXEC_ORDER_ID st + 1\<rparr>)"
proof -
  have lt: "cur < length (heap st)" using assms(1) by (rule cell_Some_less)
  show ?thesis
    using assms lt
    by (simp add: get_or_create_child_def deref_cell map_subscript_def modify_cell
        new_DProfileSection_def cell_update cell_append
        map_assign_twice list_update_append nth_append)
qed

lemma get_child_overflow:
  assumes "cell (heap st) cur = Some cs" and "map_of (children cs) nm = None"
    and "\<not> EXEC_ORDER_ID st < INT_MAX"
  shows "get_or_create_child cur nm st = Inl SignedOverflow"
  using assms
  by (simp add: get_or_create_child_def deref_cell map_subscript_def modify_cell
        new_DProfileSection_def)

subsection \<open>Store updates that keep the trees\<close>

lemma tree_at_allocated: "tree_at h r \<Longrightarrow> reach h r a \<Longrightarrow> \<exists>s. cell h a = Some s"
  by (auto simp: tree_at_def node_ok_def)

lemma tree_at_less: "tree_at h r \<Longrightarrow> reach h r a \<Longrightarrow> a < length h"
  by (meson cell_Some_less tree_at_allocated)

lemma reach_update_same:
  assumes "cell h a = Some s" and "children s' = children s"
  shows "reach (h[a := Some s']) r x \<longleftrightarrow> reach h r x"
proof
  assume "reach (h[a := Some s']) r x"
  then show "reach h r x"
  proof (induction rule: reach.induct)
    case reach_root
    show ?case by (rule reach.reach_root)
  next
    case (reach_child b t k c)
    show ?case
    proof (cases "b = a")
      case True
      with reach_child assms have "map_of (children s) k = Some (Some c)"
        by (auto simp: cell_update split: if_splits dest: cell_Some_less)
      with reach_child.IH True assms(1) show ?thesis by (auto intro: reach.reach_child)
    next
      case False
      with reach_child have "cell h b = Some t" by (simp add: cell_update)
      with reach_child show ?thesis by (auto intro: reach.reach_child)
    qed
  qed
next
  assume "reach h r x"
  then show "reach (h[a := Some s']) r x"
  proof (induction rule: reach.induct)
    case reach_root
    show ?case by (rule reach.reach_root)
  next
    case (reach_child b t k c)
    show ?case
    proof (cases "b = a")
      case True
      with reach_child assms have "cell (h[a := Some s']) b = Some s'" "map_of (children s') k = Some (Some c)"
        by (auto simp: cell_update dest: cell_Some_less)
      with reach_child.IH show ?thesis by (auto intro: reach.reach_child)
    next
      case False
      with reach_child have "cell (h[a := Some s']) b = Some t" by (simp add: cell_update)
      with reach_child show ?thesis by (auto intro: reach.reach_child)
    qed
  qed
qed

lemma node_ok_update_same:
  assumes "cell h a = Some s" and "children s' = children s" and "parent s' = parent s"
    and "name s' = name s" and "node_ok h r x"
  shows "node_ok (h[a := Some s']) r x"
proof -
  have lt: "a < length h" using assms(1) by (rule cell_Some_less)
  have c: "\<And>b. cell (h[a := Some s']) b = (if b = a then Some s' else cell h b)"
    using lt by (simp add: cell_update)
  from assms(5) obtain t where t: "cell h x = Some t"
    and up: "x \<noteq> r \<longrightarrow> (\<exists>p ps. parent t = Some p \<and> reach h r p \<and> cell h p = Some ps \<and>
                   map_of (children ps) (name t) = Some (Some x))"
    and down: "\<forall>k v. map_of (children t) k = Some v \<longrightarrow>
           (\<exists>c cs. v = Some c \<and> cell h c = Some cs \<and> parent cs = Some x \<and> name cs = k)"
    unfolding node_ok_def by blast
  define t' where "t' = (if x = a then s' else t)"
  have t': "cell (h[a := Some s']) x = Some t'" using t c by (simp add: t'_def)
  have same: "parent t' = parent t" "name t' = name t" "children t' = children t"
    using assms t by (auto simp: t'_def)
  have up': "x \<noteq> r \<longrightarrow> (\<exists>p ps. parent t' = Some p \<and> reach (h[a := Some s']) r p \<and>
        cell (h[a := Some s']) p = Some ps \<and> map_of (children ps) (name t') = Some (Some x))"
  proof
    assume "x \<noteq> r"
    with up obtain p ps where p: "parent t = Some p" "reach h r p" "cell h p = Some ps"
      "map_of (children ps) (name t) = Some (Some x)" by blast
    define ps' where "ps' = (if p = a then s' else ps)"
    have "cell (h[a := Some s']) p = Some ps'" using p c by (simp add: ps'_def)
    moreover have "children ps' = children ps" using assms p by (auto simp: ps'_def)
    moreover have "reach (h[a := Some s']) r p"
      using p(2) reach_update_same[OF assms(1,2)] by simp
    ultimately show "\<exists>p ps. parent t' = Some p \<and> reach (h[a := Some s']) r p \<and>
        cell (h[a := Some s']) p = Some ps \<and> map_of (children ps) (name t') = Some (Some x)"
      using p same by auto
  qed
  have down': "\<forall>k v. map_of (children t') k = Some v \<longrightarrow>
           (\<exists>c cs. v = Some c \<and> cell (h[a := Some s']) c = Some cs \<and> parent cs = Some x \<and> name cs = k)"
  proof (intro allI impI)
    fix k v assume "map_of (children t') k = Some v"
    with down same obtain ch cs where ch: "v = Some ch" "cell h ch = Some cs" "parent cs = Some x"
      "name cs = k" by metis
    define cs' where "cs' = (if ch = a then s' else cs)"
    have "cell (h[a := Some s']) ch = Some cs'" using ch c by (simp add: cs'_def)
    moreover have "parent cs' = Some x" "name cs' = k" using assms ch by (auto simp: cs'_def)
    ultimately show "\<exists>c cs. v = Some c \<and> cell (h[a := Some s']) c = Some cs \<and> parent cs = Some x \<and> name cs = k"
      using ch(1) by blast
  qed
  show ?thesis unfolding node_ok_def using t' up' down' by blast
qed

lemma tree_at_update_same:
  assumes "cell h a = Some s" and "children s' = children s" and "parent s' = parent s"
    and "name s' = name s" and "tree_at h r"
  shows "tree_at (h[a := Some s']) r"
proof -
  have lt: "a < length h" using assms(1) by (rule cell_Some_less)
  from assms(5) obtain rs where rs: "cell h r = Some rs" "parent rs = None"
    by (auto simp: tree_at_def)
  have "\<exists>rs'. cell (h[a := Some s']) r = Some rs' \<and> parent rs' = None"
    using rs assms(1,3) lt by (auto simp: cell_update)
  moreover have "\<forall>x. reach (h[a := Some s']) r x \<longrightarrow> node_ok (h[a := Some s']) r x"
    using assms node_ok_update_same[OF assms(1-4)] reach_update_same[OF assms(1,2)]
    by (auto simp: tree_at_def)
  ultimately show ?thesis by (simp add: tree_at_def)
qed

lemma reach_append:
  assumes "tree_at h r"
  shows "reach (h @ [x]) r a \<longleftrightarrow> reach h r a"
proof
  assume "reach (h @ [x]) r a"
  then show "reach h r a"
  proof (induction rule: reach.induct)
    case reach_root
    show ?case by (rule reach.reach_root)
  next
    case (reach_child b t k c)
    from reach_child.IH assms have "b < length h" by (rule tree_at_less[rotated])
    with reach_child have "cell h b = Some t" by (simp add: cell_append)
    with reach_child show ?case by (auto intro: reach.reach_child)
  qed
next
  assume "reach h r a"
  then show "reach (h @ [x]) r a"
  proof (induction rule: reach.induct)
    case reach_root
    show ?case by (rule reach.reach_root)
  next
    case (reach_child b t k c)
    from reach_child have "b < length h" by (auto dest: cell_Some_less)
    with reach_child have "cell (h @ [x]) b = Some t" by (simp add: cell_append)
    with reach_child show ?case by (auto intro: reach.reach_child)
  qed
qed

lemma cell_append_Some: "cell h a = Some s \<Longrightarrow> cell (h @ [x]) a = Some s"
  by (auto simp: cell_append dest: cell_Some_less)

lemma node_ok_append:
  assumes "tree_at h r" and "node_ok h r a"
  shows "node_ok (h @ [x]) r a"
proof -
  from assms(2) obtain t where t: "cell h a = Some t"
    and up: "a \<noteq> r \<longrightarrow> (\<exists>p ps. parent t = Some p \<and> reach h r p \<and> cell h p = Some ps \<and>
                   map_of (children ps) (name t) = Some (Some a))"
    and down: "\<forall>k v. map_of (children t) k = Some v \<longrightarrow>
           (\<exists>c cs. v = Some c \<and> cell h c = Some cs \<and> parent cs = Some a \<and> name cs = k)"
    unfolding node_ok_def by blast
  have 1: "cell (h @ [x]) a = Some t" using t by (rule cell_append_Some)
  have 2: "a \<noteq> r \<longrightarrow> (\<exists>p ps. parent t = Some p \<and> reach (h @ [x]) r p \<and>
      cell (h @ [x]) p = Some ps \<and> map_of (children ps) (name t) = Some (Some a))"
    using up reach_append[OF assms(1)] cell_append_Some by blast
  have 3: "\<forall>k v. map_of (children t) k = Some v \<longrightarrow>
           (\<exists>c cs. v = Some c \<and> cell (h @ [x]) c = Some cs \<and> parent cs = Some a \<and> name cs = k)"
    using down cell_append_Some by blast
  show ?thesis unfolding node_ok_def using 1 2 3 by blast
qed

lemma tree_at_append:
  assumes "tree_at h r"
  shows "tree_at (h @ [x]) r"
proof -
  from assms obtain rs where rs: "cell h r = Some rs" "parent rs = None"
    by (auto simp: tree_at_def)
  have "cell (h @ [x]) r = Some rs" using rs(1) by (rule cell_append_Some)
  moreover have "\<forall>a. reach (h @ [x]) r a \<longrightarrow> node_ok (h @ [x]) r a"
    using assms node_ok_append[OF assms] reach_append[OF assms] by (auto simp: tree_at_def)
  ultimately show ?thesis using rs(2) by (auto simp: tree_at_def)
qed

lemma reach_leaf:
  assumes "cell h r = Some s" and "children s = []"
  shows "reach h r a \<longleftrightarrow> a = r"
proof
  assume "reach h r a"
  then show "a = r" by (induction rule: reach.induct) (use assms in auto)
qed (auto intro: reach_root)

lemma tree_at_new_root:
  assumes "parent x = None" and "children x = []"
  shows "tree_at (h @ [Some x]) (length h)"
proof -
  have c: "cell (h @ [Some x]) (length h) = Some x" by (simp add: cell_append)
  show ?thesis
    unfolding tree_at_def node_ok_def reach_leaf[OF c assms(2)]
    using c assms by auto
qed

text \<open>Adding a new child cell under cur.\<close>

lemma add_child_cells:
  fixes nm :: string and n :: DProfileSection
  assumes cur: "cell h cur = Some cs"
  defines "h' \<equiv> h[cur := Some (cs\<lparr>children := map_assign nm (Some (length h)) (children cs)\<rparr>)] @ [Some n]"
  shows "cell h' (length h) = Some n"
    and "cell h' cur = Some (cs\<lparr>children := map_assign nm (Some (length h)) (children cs)\<rparr>)"
    and "\<And>b. b \<noteq> cur \<Longrightarrow> b \<noteq> length h \<Longrightarrow> cell h' b = cell h b"
  using cell_Some_less[OF cur] by (auto simp: h'_def cell_append cell_update)

lemma add_child_reach_old:
  fixes nm :: string and n :: DProfileSection
  assumes cur: "cell h cur = Some cs" and absent: "map_of (children cs) nm = None"
  defines "h' \<equiv> h[cur := Some (cs\<lparr>children := map_assign nm (Some (length h)) (children cs)\<rparr>)] @ [Some n]"
  assumes "reach h r a"
  shows "reach h' r a"
  using assms(4)
proof (induction rule: reach.induct)
  case reach_root
  show ?case by (rule reach.reach_root)
next
  case (reach_child b t k c)
  have lt: "b < length h" using reach_child(2) by (rule cell_Some_less)
  show ?case
  proof (cases "b = cur")
    case True
    then have "t = cs" using reach_child(2) cur by simp
    then have "k \<noteq> nm" using reach_child(3) absent by auto
    then have "map_of (children (cs\<lparr>children := map_assign nm (Some (length h)) (children cs)\<rparr>)) k = Some (Some c)"
      using reach_child(3) \<open>t = cs\<close> by (simp add: map_of_map_assign)
    moreover have "cell h' b = Some (cs\<lparr>children := map_assign nm (Some (length h)) (children cs)\<rparr>)"
      using True add_child_cells(2)[OF cur] by (simp add: h'_def)
    ultimately show ?thesis using reach_child.IH by (blast intro: reach.reach_child)
  next
    case False
    then have "cell h' b = Some t"
      using add_child_cells(3)[OF cur, of b] lt reach_child(2) by (simp add: h'_def)
    then show ?thesis using reach_child by (blast intro: reach.reach_child)
  qed
qed

lemma add_child_reach_new:
  fixes nm :: string and n :: DProfileSection
  assumes cur: "cell h cur = Some cs" and absent: "map_of (children cs) nm = None"
    and n: "children n = []" and tree: "tree_at h r"
  defines "h' \<equiv> h[cur := Some (cs\<lparr>children := map_assign nm (Some (length h)) (children cs)\<rparr>)] @ [Some n]"
  assumes "reach h' r a"
  shows "reach h r a \<or> (a = length h \<and> reach h r cur)"
  using assms(6)
proof (induction rule: reach.induct)
  case reach_root
  show ?case by (simp add: reach.reach_root)
next
  case (reach_child b t k c)
  from reach_child.IH show ?case
  proof
    assume old: "reach h r b"
    then have lt: "b < length h" using tree by (rule tree_at_less[rotated])
    show ?thesis
    proof (cases "b = cur")
      case True
      then have t: "t = cs\<lparr>children := map_assign nm (Some (length h)) (children cs)\<rparr>"
        using reach_child(2) add_child_cells(2)[OF cur] by (simp add: h'_def)
      show ?thesis
      proof (cases "k = nm")
        case True
        then have "c = length h" using reach_child(3) t by (simp add: map_of_map_assign)
        then show ?thesis using old \<open>b = cur\<close> by simp
      next
        case False
        then have "map_of (children cs) k = Some (Some c)"
          using reach_child(3) t by (simp add: map_of_map_assign)
        then show ?thesis using old \<open>b = cur\<close> cur by (blast intro: reach.reach_child)
      qed
    next
      case False
      then have "cell h b = Some t"
        using add_child_cells(3)[OF cur, of b] lt reach_child(2) by (simp add: h'_def)
      then show ?thesis using old reach_child(3) by (blast intro: reach.reach_child)
    qed
  next
    assume "b = length h \<and> reach h r cur"
    then have "t = n" using reach_child(2) add_child_cells(1)[OF cur] by (simp add: h'_def)
    then show ?thesis using reach_child(3) n by simp
  qed
qed

lemma tree_at_add_child:
  fixes nm :: string and n :: DProfileSection
  assumes cur: "cell h cur = Some cs" and absent: "map_of (children cs) nm = None"
    and n: "parent n = Some cur" "name n = nm" "children n = []" and tree: "tree_at h r"
  defines "cs' \<equiv> cs\<lparr>children := map_assign nm (Some (length h)) (children cs)\<rparr>"
  defines "h' \<equiv> h[cur := Some cs'] @ [Some n]"
  shows "tree_at h' r"
proof -
  have cN: "cell h' (length h) = Some n" and cC: "cell h' cur = Some cs'"
    and cO: "\<And>b. b \<noteq> cur \<Longrightarrow> b \<noteq> length h \<Longrightarrow> cell h' b = cell h b"
    using add_child_cells[OF cur, where nm=nm and n=n] by (simp_all add: h'_def cs'_def)
  have keep: "\<And>b t. cell h b = Some t \<Longrightarrow>
      \<exists>t'. cell h' b = Some t' \<and> parent t' = parent t \<and> name t' = name t \<and>
           (\<forall>k. k \<noteq> nm \<or> b \<noteq> cur \<longrightarrow> map_of (children t') k = map_of (children t) k)"
  proof -
    fix b t assume b: "cell h b = Some t"
    then have "b \<noteq> length h" by (auto dest: cell_Some_less)
    show "\<exists>t'. cell h' b = Some t' \<and> parent t' = parent t \<and> name t' = name t \<and>
           (\<forall>k. k \<noteq> nm \<or> b \<noteq> cur \<longrightarrow> map_of (children t') k = map_of (children t) k)"
    proof (cases "b = cur")
      case True
      then have "t = cs" using b cur by simp
      then show ?thesis using True cC by (auto simp: cs'_def map_of_map_assign)
    next
      case False
      then show ?thesis using cO[of b] \<open>b \<noteq> length h\<close> b by simp
    qed
  qed
  have old: "\<And>x. reach h r x \<Longrightarrow> reach h' r x"
    using add_child_reach_old[OF cur absent, where n=n and r=r] by (simp add: h'_def cs'_def)
  have new: "\<And>x. reach h' r x \<Longrightarrow> reach h r x \<or> (x = length h \<and> reach h r cur)"
    using add_child_reach_new[OF cur absent n(3) tree] by (simp add: h'_def cs'_def)
  from tree obtain rs where rs: "cell h r = Some rs" "parent rs = None"
    by (auto simp: tree_at_def)
  have root: "\<exists>rs'. cell h' r = Some rs' \<and> parent rs' = None"
    using keep[OF rs(1)] rs(2) by auto
  have nodes: "node_ok h' r a" if "reach h' r a" for a
    using new[OF that]
  proof
    assume ra: "reach h r a"
    then have "node_ok h r a" using tree by (simp add: tree_at_def)
    then obtain t where t: "cell h a = Some t"
      and up: "a \<noteq> r \<longrightarrow> (\<exists>p ps. parent t = Some p \<and> reach h r p \<and> cell h p = Some ps \<and>
                   map_of (children ps) (name t) = Some (Some a))"
      and down: "\<forall>k v. map_of (children t) k = Some v \<longrightarrow>
           (\<exists>c cs. v = Some c \<and> cell h c = Some cs \<and> parent cs = Some a \<and> name cs = k)"
      unfolding node_ok_def by blast
    from keep[OF t] obtain t' where t': "cell h' a = Some t'" "parent t' = parent t"
      "name t' = name t" "\<forall>k. k \<noteq> nm \<or> a \<noteq> cur \<longrightarrow> map_of (children t') k = map_of (children t) k"
      by blast
    have up': "a \<noteq> r \<longrightarrow> (\<exists>p ps. parent t' = Some p \<and> reach h' r p \<and> cell h' p = Some ps \<and>
                   map_of (children ps) (name t') = Some (Some a))"
    proof
      assume "a \<noteq> r"
      with up obtain p ps where p: "parent t = Some p" "reach h r p" "cell h p = Some ps"
        "map_of (children ps) (name t) = Some (Some a)" by blast
      from keep[OF p(3)] obtain ps' where ps': "cell h' p = Some ps'"
        "\<forall>k. k \<noteq> nm \<or> p \<noteq> cur \<longrightarrow> map_of (children ps') k = map_of (children ps) k" by blast
      have "name t \<noteq> nm \<or> p \<noteq> cur" using p(3,4) cur absent by auto
      then have "map_of (children ps') (name t) = Some (Some a)" using ps'(2) p(4) by simp
      then show "\<exists>p ps. parent t' = Some p \<and> reach h' r p \<and> cell h' p = Some ps \<and>
                   map_of (children ps) (name t') = Some (Some a)"
        using p(1,2) ps'(1) t'(2,3) old by auto
    qed
    have down': "\<forall>k v. map_of (children t') k = Some v \<longrightarrow>
           (\<exists>c cs. v = Some c \<and> cell h' c = Some cs \<and> parent cs = Some a \<and> name cs = k)"
    proof (intro allI impI)
      fix k v assume kv: "map_of (children t') k = Some v"
      show "\<exists>c cs. v = Some c \<and> cell h' c = Some cs \<and> parent cs = Some a \<and> name cs = k"
      proof (cases "k = nm \<and> a = cur")
        case True
        then have "t' = cs'" using t'(1) cC by simp
        then have "v = Some (length h)" using kv True by (simp add: cs'_def map_of_map_assign)
        then show ?thesis using cN n True by auto
      next
        case False
        then have "map_of (children t) k = Some v" using kv t'(4) by auto
        with down obtain c cs0 where c: "v = Some c" "cell h c = Some cs0" "parent cs0 = Some a"
          "name cs0 = k" by blast
        from keep[OF c(2)] c show ?thesis by auto
      qed
    qed
    show ?thesis unfolding node_ok_def using t'(1) up' down' by blast
  next
    assume a: "a = length h \<and> reach h r cur"
    have "r < length h" using rs(1) by (rule cell_Some_less)
    then have "a \<noteq> r" using a by simp
    have "map_of (children cs') nm = Some (Some (length h))"
      by (simp add: cs'_def map_of_map_assign)
    then have "\<exists>p ps. parent n = Some p \<and> reach h' r p \<and> cell h' p = Some ps \<and>
                   map_of (children ps) (name n) = Some (Some a)"
      using n a cC old by auto
    then show ?thesis unfolding node_ok_def using cN a n(3) by auto
  qed
  show ?thesis unfolding tree_at_def using root nodes by blast
qed

subsection \<open>The operations keep the tree invariant\<close>

lemma context_ok_update_same:
  assumes "cell h a = Some s" and "children s' = children s" and "parent s' = parent s"
    and "name s' = name s" and "context_ok h c"
  shows "context_ok (h[a := Some s']) c"
  using assms(5) tree_at_update_same[OF assms(1-4)] reach_update_same[OF assms(1,2)]
  unfolding context_ok_def by blast

lemma context_ok_append: "context_ok h c \<Longrightarrow> context_ok (h @ [x]) c"
  unfolding context_ok_def using tree_at_append reach_append by blast

lemma context_ok_add_child:
  fixes nm :: string and n :: DProfileSection
  assumes "cell h cur = Some cs" and "map_of (children cs) nm = None"
    and "parent n = Some cur" "name n = nm" "children n = []" and "context_ok h c"
  shows "context_ok (h[cur := Some (cs\<lparr>children := map_assign nm (Some (length h)) (children cs)\<rparr>)] @ [Some n]) c"
  using assms(6) tree_at_add_child[OF assms(1-5)] add_child_reach_old[OF assms(1,2)]
  unfolding context_ok_def by blast

lemma GetContext_index:
  assumes "GetContext t st = Inr (i, st1)"
  shows "find_context t (contexts st1) = Some i"
proof (cases "find_context t (contexts st)")
  case None
  then have nin: "t \<notin> thread_context ` set (contexts st)" by (simp add: find_context_None)
  show ?thesis
  proof (cases "EXEC_ORDER_ID st < INT_MAX")
    case True
    from GetContext_new[OF None True] assms show ?thesis
      using None by (auto simp: find_context_append)
  next
    case False
    from GetContext_new_overflow[OF None False] assms show ?thesis by simp
  qed
next
  case (Some j)
  then show ?thesis using assms by (simp add: GetContext_found)
qed

lemma GetContext_tree_inv:
  assumes "tree_inv st" and "GetContext t st = Inr (i, st1)"
  shows "tree_inv st1"
proof (cases "find_context t (contexts st)")
  case None
  show ?thesis
  proof (cases "EXEC_ORDER_ID st < INT_MAX")
    case True
    have "context_ok (heap st @ [Some (constructed (EXEC_ORDER_ID st))])
            \<lparr>thread_context = t, toplevel = Some (length (heap st)), current = Some (length (heap st))\<rparr>"
      unfolding context_ok_def
      using tree_at_new_root[of "constructed (EXEC_ORDER_ID st)" "heap st"]
      by (auto simp: constructed_def intro: reach_root)
    then show ?thesis
      using GetContext_new[OF None True] assms context_ok_append
      by (auto simp: tree_inv_def)
  next
    case False
    from GetContext_new_overflow[OF None False] assms show ?thesis by simp
  qed
next
  case (Some j)
  then show ?thesis using assms by (simp add: GetContext_found)
qed

lemma tree_inv_nth: "tree_inv st \<Longrightarrow> i < length (contexts st) \<Longrightarrow> context_ok (heap st) (contexts st ! i)"
  by (simp add: tree_inv_def)

lemma context_ok_no_null_entry:
  assumes "context_ok h c" and "current c = Some cur" and "cell h cur = Some cs"
  shows "map_of (children cs) k \<noteq> Some None"
proof -
  from assms(1,2) obtain r where "tree_at h r" "reach h r cur"
    by (auto simp: context_ok_def)
  then have "node_ok h r cur" by (simp add: tree_at_def)
  then show ?thesis using assms(3) by (auto simp: node_ok_def)
qed

text \<open>The three outcomes of the lookup of a child.\<close>

lemma get_child_cases:
  assumes ok: "context_ok (heap st) c" and cur: "current c = Some cur"
    and res: "get_or_create_child cur nm st = Inr (a, st')"
  obtains (found) cs where "cell (heap st) cur = Some cs" "map_of (children cs) nm = Some (Some a)"
      "st' = st"
  | (created) cs where "cell (heap st) cur = Some cs" "map_of (children cs) nm = None"
      "EXEC_ORDER_ID st < INT_MAX" "a = length (heap st)"
      "st' = st\<lparr>heap := (heap st)[cur := Some (cs\<lparr>children := map_assign nm (Some (length (heap st))) (children cs)\<rparr>)]
                      @ [Some ((constructed (EXEC_ORDER_ID st))\<lparr>parent := Some cur, name := nm\<rparr>)],
             EXEC_ORDER_ID := EXEC_ORDER_ID st + 1\<rparr>"
proof -
  from res obtain cs where cs: "cell (heap st) cur = Some cs"
    by (auto simp: get_or_create_child_def bind_res_Inr deref_Inr)
  show thesis
  proof (cases "map_of (children cs) nm")
    case None
    show ?thesis
    proof (cases "EXEC_ORDER_ID st < INT_MAX")
      case True
      from get_child_created[OF cs None True] res created[OF cs None True] show ?thesis by simp
    next
      case False
      from get_child_overflow[OF cs None False] res show ?thesis by simp
    qed
  next
    case (Some p)
    with context_ok_no_null_entry[OF ok cur cs, of nm] obtain b where b: "p = Some b" by (cases p) auto
    then have m: "map_of (children cs) nm = Some (Some b)" using Some by simp
    from get_child_found[OF cs m] res found[OF cs] m show ?thesis by simp
  qed
qed

lemma context_ok_current_cell:
  assumes "context_ok h c"
  obtains r cur cs where "toplevel c = Some r" "current c = Some cur" "tree_at h r" "reach h r cur"
    "cell h cur = Some cs"
  using assms tree_at_allocated unfolding context_ok_def by blast

lemma set_current_simps [simp]:
  "contexts (set_current i p st) = (contexts st)[i := (contexts st ! i)\<lparr>current := p\<rparr>]"
  "heap (set_current i p st) = heap st"
  "EXEC_ORDER_ID (set_current i p st) = EXEC_ORDER_ID st"
  "end_time (set_current i p st) = end_time st"
  "clock (set_current i p st) = clock st"
  "ticks (set_current i p st) = ticks st"
  by (simp_all add: set_current_def)

lemma tree_inv_set_current:
  assumes inv: "tree_inv st" and i: "i < length (contexts st)"
    and r: "toplevel (contexts st ! i) = Some r" and a: "reach (heap st) r a"
  shows "tree_inv (set_current i (Some a) st)"
proof -
  from tree_inv_nth[OF inv i] r have "tree_at (heap st) r" by (auto simp: context_ok_def)
  then have "context_ok (heap st) ((contexts st ! i)\<lparr>current := Some a\<rparr>)"
    using r a by (simp add: context_ok_def)
  then show ?thesis
    using inv by (auto simp: tree_inv_def dest!: set_update_subset_insert[THEN subsetD])
qed

lemma tree_inv_heap_update_same:
  assumes "tree_inv st" and "cell (heap st) a = Some s" and "children s' = children s"
    and "parent s' = parent s" and "name s' = name s"
  shows "tree_inv (st\<lparr>heap := (heap st)[a := Some s']\<rparr>)"
  using assms(1) context_ok_update_same[OF assms(2-5)] by (simp add: tree_inv_def)

lemma get_child_tree_inv:
  assumes inv: "tree_inv st" and i: "i < length (contexts st)"
    and cur: "current (contexts st ! i) = Some cur" and r: "toplevel (contexts st ! i) = Some r"
    and res: "get_or_create_child cur nm st = Inr (a, st')"
  shows "tree_inv st'" and "contexts st' = contexts st" and "reach (heap st') r a"
    and "\<exists>sa cs. cell (heap st') a = Some sa \<and> parent sa = Some cur \<and> name sa = nm \<and>
           cell (heap st') cur = Some cs \<and> map_of (children cs) nm = Some (Some a)"
proof -
  have ok: "context_ok (heap st) (contexts st ! i)" using inv i by (rule tree_inv_nth)
  then have tr: "tree_at (heap st) r" and rc: "reach (heap st) r cur"
    using cur r by (auto simp: context_ok_def)
  have "tree_inv st' \<and> contexts st' = contexts st \<and> reach (heap st') r a \<and>
     (\<exists>sa cs. cell (heap st') a = Some sa \<and> parent sa = Some cur \<and> name sa = nm \<and>
           cell (heap st') cur = Some cs \<and> map_of (children cs) nm = Some (Some a))"
    using ok cur res
  proof (cases rule: get_child_cases)
    case (found cs)
    have ra: "reach (heap st) r a" using rc found(1,2) by (rule reach_child)
    have "node_ok (heap st) r cur" using tr rc by (simp add: tree_at_def)
    then obtain sa where "cell (heap st) a = Some sa" "parent sa = Some cur" "name sa = nm"
      using found(1,2) unfolding node_ok_def by fastforce
    then show ?thesis using found inv ra by auto
  next
    case (created cs)
    define n where "n = (constructed (EXEC_ORDER_ID st))\<lparr>parent := Some cur, name := nm\<rparr>"
    define cs' where "cs' = cs\<lparr>children := map_assign nm (Some (length (heap st))) (children cs)\<rparr>"
    have n: "parent n = Some cur" "name n = nm" "children n = []"
      by (simp_all add: n_def constructed_def)
    have h': "heap st' = (heap st)[cur := Some cs'] @ [Some n]" and c': "contexts st' = contexts st"
      using created(5) by (simp_all add: n_def cs'_def)
    have 1: "tree_inv st'"
      using inv context_ok_add_child[OF created(1,2) n]
      unfolding tree_inv_def h' c' cs'_def by blast
    have cN: "cell (heap st') (length (heap st)) = Some n" and cC: "cell (heap st') cur = Some cs'"
      using add_child_cells(1,2)[OF created(1), where nm=nm and n=n] by (simp_all add: h' cs'_def)
    have m: "map_of (children cs') nm = Some (Some a)"
      by (simp add: cs'_def map_of_map_assign created(4))
    have "reach (heap st') r cur"
      using add_child_reach_old[OF created(1,2) rc, where n=n] by (simp add: h' cs'_def)
    then have 2: "reach (heap st') r a" using cC m by (rule reach_child)
    show ?thesis using 1 2 c' cN cC m n created(4) by auto
  qed
  then show "tree_inv st'" and "contexts st' = contexts st" and "reach (heap st') r a"
    and "\<exists>sa cs. cell (heap st') a = Some sa \<and> parent sa = Some cur \<and> name sa = nm \<and>
           cell (heap st') cur = Some cs \<and> map_of (children cs) nm = Some (Some a)"
    by blast+
qed

text \<open>The steps of a push that returns.\<close>

lemma SectionPush_unfold:
  assumes "SectionPush t nm st = Inr st'"
  obtains i st1 cur a st2 sa where "GetContext t st = Inr (i, st1)"
    "current (contexts st1 ! i) = Some cur" "get_or_create_child cur nm st1 = Inr (a, st2)"
    "cell (heap st2) a = Some sa"
    "st' = (set_current i (Some a) st2)
             \<lparr>ticks := Suc (ticks st2),
              heap := (heap st2)[a := Some (sa\<lparr>timer := clock st2 (ticks st2)\<rparr>)]\<rparr>"
  using assms
  by (auto simp: SectionPush_def bind_res_Inr SetNow_def modify_Inr set_current_def
      split: option.splits)

lemma GetContext_less:
  "GetContext t st = Inr (i, st1) \<Longrightarrow> i < length (contexts st1) \<and> thread_context (contexts st1 ! i) = t"
  using GetContext_index find_context_Some by blast

lemma SectionPush_tree_inv:
  assumes inv: "tree_inv st" and res: "SectionPush t nm st = Inr st'"
  shows "tree_inv st'"
  using res
proof (cases rule: SectionPush_unfold)
  case (1 i st1 cur a st2 sa)
  have inv1: "tree_inv st1" using inv 1(1) by (rule GetContext_tree_inv)
  have i: "i < length (contexts st1)" using GetContext_less[OF 1(1)] by simp
  from tree_inv_nth[OF inv1 i] obtain r where r: "toplevel (contexts st1 ! i) = Some r"
    by (auto simp: context_ok_def)
  note g = get_child_tree_inv[OF inv1 i 1(2) r 1(3)]
  have i2: "i < length (contexts st2)" and r2: "toplevel (contexts st2 ! i) = Some r"
    using i r g(2) by simp_all
  have inv3: "tree_inv (set_current i (Some a) st2)"
    using g(1) i2 r2 g(3) by (rule tree_inv_set_current)
  have "tree_inv ((set_current i (Some a) st2)\<lparr>heap := (heap (set_current i (Some a) st2))[a := Some (sa\<lparr>timer := clock st2 (ticks st2)\<rparr>)]\<rparr>)"
    by (rule tree_inv_heap_update_same[OF inv3]) (use 1(4) in simp_all)
  then show ?thesis unfolding 1(5) by (simp add: tree_inv_def)
qed

lemma tree_inv_cong:
  "contexts st' = contexts st \<Longrightarrow> heap st' = heap st \<Longrightarrow> tree_inv st' \<longleftrightarrow> tree_inv st"
  by (simp add: tree_inv_def)

lemma record_time_Inr:
  "record_time d s = Inr s' \<longleftrightarrow>
     call_count s < INT_MAX \<and> call_count s \<noteq> - 1 \<and>
     s' = s\<lparr>call_count := call_count s + 1,
            avg_time := (d + avg_time s * real_of_int (call_count s)) / real_of_int (call_count s + 1)\<rparr>"
  by (auto simp: record_time_def Let_def)

text \<open>The steps of a pop that returns.\<close>

lemma SectionPop_unfold:
  assumes "SectionPop t st = Inr st'"
  obtains i st2 a sec where
    "GetContext t (st\<lparr>ticks := Suc (ticks st), end_time := clock st (ticks st)\<rparr>) = Inr (i, st2)"
    "current (contexts st2 ! i) = Some a" "cell (heap st2) a = Some sec"
    "case parent sec of
       None \<Rightarrow> st' = st2
     | Some p \<Rightarrow> (\<exists>sec'. record_time (end_time st2 - timer sec) sec = Inr sec' \<and>
                  st' = set_current i (Some p) (st2\<lparr>heap := (heap st2)[a := Some sec']\<rparr>))"
proof -
  from assms obtain i st2 sec where g:
    "GetContext t (st\<lparr>ticks := Suc (ticks st), end_time := clock st (ticks st)\<rparr>) = Inr (i, st2)"
    and d: "deref (heap st2) (current (contexts st2 ! i)) = Inr sec"
    and rest: "(case parent sec of
                  None \<Rightarrow> Inr st2
                | Some p \<Rightarrow>
                    bind_res (record_time (end_time st2 - timer sec) sec) (\<lambda>sec'.
                    bind_res (modify (current (contexts st2 ! i)) (\<lambda>x. sec') st2) (\<lambda>st3.
                    Inr (set_current i (parent sec) st3)))) = Inr st'"
    by (auto simp: SectionPop_def SetNow_def Let_def bind_res_Inr)
  from d obtain a where a: "current (contexts st2 ! i) = Some a" "cell (heap st2) a = Some sec"
    by (auto simp: deref_Inr)
  have "case parent sec of
       None \<Rightarrow> st' = st2
     | Some p \<Rightarrow> (\<exists>sec'. record_time (end_time st2 - timer sec) sec = Inr sec' \<and>
                  st' = set_current i (Some p) (st2\<lparr>heap := (heap st2)[a := Some sec']\<rparr>))"
    using rest a by (auto simp: bind_res_Inr modify_Inr split: option.splits)
  with g a that show thesis by blast
qed

lemma SectionPop_tree_inv:
  assumes inv: "tree_inv st" and res: "SectionPop t st = Inr st'"
  shows "tree_inv st'"
  using res
proof (cases rule: SectionPop_unfold)
  case (1 i st2 a sec)
  have "tree_inv (st\<lparr>ticks := Suc (ticks st), end_time := clock st (ticks st)\<rparr>)"
    using inv by (simp add: tree_inv_def)
  then have inv2: "tree_inv st2" using 1(1) by (rule GetContext_tree_inv)
  have i: "i < length (contexts st2)" using GetContext_less[OF 1(1)] by simp
  show ?thesis
  proof (cases "parent sec")
    case None
    then show ?thesis using 1(4) inv2 by simp
  next
    case (Some p)
    with 1(4) obtain sec' where rec: "record_time (end_time st2 - timer sec) sec = Inr sec'"
      and st': "st' = set_current i (Some p) (st2\<lparr>heap := (heap st2)[a := Some sec']\<rparr>)"
      by auto
    have same: "children sec' = children sec" "parent sec' = parent sec" "name sec' = name sec"
      using rec by (auto simp: record_time_Inr)
    have inv3: "tree_inv (st2\<lparr>heap := (heap st2)[a := Some sec']\<rparr>)"
      using inv2 1(3) same by (rule tree_inv_heap_update_same)
    from tree_inv_nth[OF inv2 i] 1(2) obtain r where r: "toplevel (contexts st2 ! i) = Some r"
      "tree_at (heap st2) r" "reach (heap st2) r a"
      by (auto simp: context_ok_def)
    have "a \<noteq> r" using r(2) 1(3) Some by (auto simp: tree_at_def)
    moreover have "node_ok (heap st2) r a" using r(2,3) by (simp add: tree_at_def)
    ultimately have "reach (heap st2) r p" using 1(3) Some by (auto simp: node_ok_def)
    then have "reach ((heap st2)[a := Some sec']) r p"
      using reach_update_same[OF 1(3) same(1)] by simp
    then show ?thesis
      unfolding st' using inv3 i r(1) by (intro tree_inv_set_current) simp_all
  qed
qed

subsection \<open>Evaluation of traces\<close>

lemmas eval_defs =
  SectionPush_def SectionPop_def GetContext_def get_or_create_child_def new_DProfileSection_def
  constructed_def modify_def deref_def map_subscript_def SetNow_def set_current_def record_time_def
  fresh_def mock_clock_def INT_MAX_def Let_def Clear_def

lemma nested_run:
  "run [Push 0 ''outer'', Push 0 ''inner'', Pop 0, Pop 0] (fresh (mock_clock [0, 1, 3, 4, 10])) =
   Inr \<lparr>contexts = [\<lparr>thread_context = 0, toplevel = Some 0, current = Some 0\<rparr>],
        EXEC_ORDER_ID = 3, end_time = 4,
        heap =
          [Some \<lparr>call_count = 0, avg_time = 0, exec_order_id = 0, timer = 0,
               parent = None, name = [], children = [(''outer'', Some 1)]\<rparr>,
           Some \<lparr>call_count = 1, avg_time = 4, exec_order_id = 1, timer = 0,
               parent = Some 0, name = ''outer'', children = [(''inner'', Some 2)]\<rparr>,
           Some \<lparr>call_count = 1, avg_time = 2, exec_order_id = 2, timer = 1,
               parent = Some 1, name = ''inner'', children = []\<rparr>],
        clock = mock_clock [0, 1, 3, 4, 10], ticks = 4\<rparr>"
  by (simp add: eval_defs)

subsection \<open>The shape of a tree, and the invariant along a trace\<close>

lemma descend_append:
  "descend h a (ks @ ks') = (case descend h a ks of None \<Rightarrow> None | Some b \<Rightarrow> descend h b ks')"
  by (induction ks arbitrary: a) (auto split: option.splits)

lemma descend_snoc:
  "descend h r (ks @ [k]) = Some a \<longleftrightarrow>
     (\<exists>b s. descend h r ks = Some b \<and> cell h b = Some s \<and> map_of (children s) k = Some (Some a))"
  by (auto simp: descend_append split: option.splits)

lemma descend_reach: "descend h r ks = Some a \<Longrightarrow> reach h r a"
proof (induction ks arbitrary: a rule: rev_induct)
  case Nil
  then show ?case by (simp add: reach_root)
next
  case (snoc k ks)
  then show ?case unfolding descend_snoc by (blast intro: reach_child)
qed

lemma reach_descend: "reach h r a \<Longrightarrow> \<exists>ks. descend h r ks = Some a"
proof (induction rule: reach.induct)
  case reach_root
  have "descend h r [] = Some r" by simp
  then show ?case by blast
next
  case (reach_child b s k c)
  then obtain ks where "descend h r ks = Some b" by blast
  with reach_child(2,3) have "descend h r (ks @ [k]) = Some c" unfolding descend_snoc by blast
  then show ?case by blast
qed

lemma tree_at_child_fields:
  assumes "tree_at h r" and "reach h r b" and "cell h b = Some s"
    and "map_of (children s) k = Some (Some a)"
  shows "\<exists>t. cell h a = Some t \<and> parent t = Some b \<and> name t = k"
proof -
  have "node_ok h r b" using assms(1,2) by (simp add: tree_at_def)
  then show ?thesis using assms(3,4) unfolding node_ok_def by fastforce
qed

lemma tree_at_root_not_child:
  assumes "tree_at h r" and "descend h r (ks @ [k]) = Some r"
  shows False
proof -
  from assms(2) obtain b s where b: "descend h r ks = Some b" "cell h b = Some s"
    "map_of (children s) k = Some (Some r)" unfolding descend_snoc by blast
  from tree_at_child_fields[OF assms(1) descend_reach[OF b(1)] b(2,3)]
  show False using assms(1) by (auto simp: tree_at_def)
qed

text \<open>Under the invariant a section has one list of keys from the root: the shape is a tree.\<close>

lemma tree_at_descend_unique:
  assumes "tree_at h r" and "descend h r ks = Some a" and "descend h r ks' = Some a"
  shows "ks = ks'"
  using assms(2,3)
proof (induction ks arbitrary: a ks' rule: rev_induct)
  case Nil
  then have "a = r" by simp
  show ?case
  proof (cases ks' rule: rev_cases)
    case Nil
    then show ?thesis by simp
  next
    case (snoc ks0 k)
    with Nil.prems(2) \<open>a = r\<close> tree_at_root_not_child[OF assms(1)] show ?thesis by blast
  qed
next
  case (snoc k ks)
  note p1 = snoc.prems(1) and p2 = snoc.prems(2) and IH = snoc.IH
  from p1 obtain b s where b: "descend h r ks = Some b" "cell h b = Some s"
    "map_of (children s) k = Some (Some a)" unfolding descend_snoc by blast
  from tree_at_child_fields[OF assms(1) descend_reach[OF b(1)] b(2,3)]
  obtain t where t: "cell h a = Some t" "parent t = Some b" "name t = k" by blast
  show ?case
  proof (cases ks' rule: rev_cases)
    case Nil
    then have "a = r" using p2 by simp
    then show ?thesis using p1 tree_at_root_not_child[OF assms(1)] by blast
  next
    case (snoc ks0 k')
    from p2[unfolded snoc descend_snoc]
    obtain b' s' where b': "descend h r ks0 = Some b'" "cell h b' = Some s'"
      "map_of (children s') k' = Some (Some a)" by blast
    from tree_at_child_fields[OF assms(1) descend_reach[OF b'(1)] b'(2,3)] t
    have "b' = b" "k' = k" by auto
    then have "ks = ks0" using IH[OF b(1)] b'(1) by simp
    then show ?thesis using snoc \<open>k' = k\<close> by simp
  qed
qed

lemma tree_at_one_path:
  assumes "tree_at h r" and "reach h r a"
  shows "\<exists>!ks. descend h r ks = Some a"
  using reach_descend[OF assms(2)] tree_at_descend_unique[OF assms(1)] by blast

lemma Clear_contexts: "Clear st = Inr st' \<Longrightarrow> contexts st' = []"
  by (auto simp: Clear_def bind_res_Inr)

lemma step_tree_inv:
  assumes "tree_inv st" and "step c st = Inr st'"
  shows "tree_inv st'"
proof (cases c)
  case (Push t nm)
  then show ?thesis using assms SectionPush_tree_inv by simp
next
  case (Pop t)
  then show ?thesis using assms SectionPop_tree_inv by simp
next
  case ClearAll
  then show ?thesis using assms Clear_contexts[of st st'] by (simp add: tree_inv_def)
qed

lemma tree_inv_fresh: "tree_inv (fresh clk)"
  by (simp add: tree_inv_def fresh_def)

lemma run_tree_inv: "tree_inv st \<Longrightarrow> run cs st = Inr st' \<Longrightarrow> tree_inv st'"
  by (induction cs arbitrary: st) (auto simp: bind_res_Inr dest: step_tree_inv)

subsection \<open>Pop at the root, and concrete traces\<close>

lemma SectionPop_at_root:
  assumes "find_context t (contexts st) = Some i" and "current (contexts st ! i) = Some a"
    and "cell (heap st) a = Some s" and "parent s = None"
  shows "SectionPop t st = Inr (st\<lparr>ticks := Suc (ticks st), end_time := clock st (ticks st)\<rparr>)"
  using assms
  by (simp add: SectionPop_def SetNow_def Let_def GetContext_found deref_cell)

lemma pop_past_root_run:
  "run [Pop 0, Pop 0, Push 0 ''X'', Pop 0] (fresh clk) =
   Inr \<lparr>contexts = [\<lparr>thread_context = 0, toplevel = Some 0, current = Some 0\<rparr>],
        EXEC_ORDER_ID = 2, end_time = clk 3,
        heap =
          [Some \<lparr>call_count = 0, avg_time = 0, exec_order_id = 0, timer = 0,
               parent = None, name = [], children = [(''X'', Some 1)]\<rparr>,
           Some \<lparr>call_count = 1, avg_time = clk 3 - clk 2, exec_order_id = 1, timer = clk 2,
               parent = Some 0, name = ''X'', children = []\<rparr>],
        clock = clk, ticks = 4\<rparr>"
  by (simp add: eval_defs numeral_2_eq_2 numeral_3_eq_3)

subsection \<open>Push followed by pop\<close>

lemma GetContext_same:
  assumes "GetContext t st = Inr (i, st1)"
  shows "GetContext t st1 = Inr (i, st1)"
  using GetContext_index[OF assms] by (rule GetContext_found)

text \<open>What a push does to the context of the calling thread.\<close>

lemma SectionPush_current:
  assumes inv: "tree_inv st" and g: "GetContext t st = Inr (i, st0)"
    and res: "SectionPush t nm st = Inr st'"
  obtains cur a sa cs where "current (contexts st0 ! i) = Some cur"
    "contexts st' = (contexts st0)[i := (contexts st0 ! i)\<lparr>current := Some a\<rparr>]"
    "cell (heap st') a = Some sa" "parent sa = Some cur" "name sa = nm"
    "cell (heap st') cur = Some cs" "map_of (children cs) nm = Some (Some a)"
    "timer sa = clock st (ticks st)" "find_context t (contexts st') = Some i"
    "i < length (contexts st0)"
  using res
proof (cases rule: SectionPush_unfold)
  case (1 i' st1 cur a st2 sa)
  have eq: "i' = i" "st1 = st0" using g 1(1) by simp_all
  have inv0: "tree_inv st0" using inv g by (rule GetContext_tree_inv)
  have i: "i < length (contexts st0)" using GetContext_less[OF g] by simp
  from tree_inv_nth[OF inv0 i] obtain r where r: "toplevel (contexts st0 ! i) = Some r"
    by (auto simp: context_ok_def)
  note gc = get_child_tree_inv[OF inv0 i 1(2)[unfolded eq] r 1(3)[unfolded eq]]
  from gc(4) 1(4) obtain cs where sa: "parent sa = Some cur" "name sa = nm"
    and cs: "cell (heap st2) cur = Some cs" "map_of (children cs) nm = Some (Some a)" by auto
  have lt: "a < length (heap st2)" using 1(4) by (rule cell_Some_less)
  define sa' where "sa' = sa\<lparr>timer := clock st2 (ticks st2)\<rparr>"
  have h': "heap st' = (heap st2)[a := Some sa']" and c': "contexts st' = (contexts st0)[i := (contexts st0 ! i)\<lparr>current := Some a\<rparr>]"
    using 1(5) gc(2) eq by (simp_all add: sa'_def)
  have ca: "cell (heap st') a = Some sa'" using lt by (simp add: h' cell_update)
  obtain cs' where cs': "cell (heap st') cur = Some cs'" "children cs' = children cs"
    using cs(1) lt sa by (cases "cur = a") (auto simp: h' cell_update sa'_def 1(4))
  have clk: "clock st2 = clock st" "ticks st2 = ticks st"
  proof -
    have a: "clock st0 = clock st \<and> ticks st0 = ticks st"
      using g by (auto simp: GetContext_def new_DProfileSection_def Let_def bind_res_Inr
          split: option.splits if_splits)
    have b: "clock st2 = clock st0 \<and> ticks st2 = ticks st0"
      using tree_inv_nth[OF inv0 i] 1(2)[unfolded eq] 1(3)[unfolded eq]
      by (cases rule: get_child_cases) auto
    from a b show "clock st2 = clock st" "ticks st2 = ticks st" by simp_all
  qed
  have f: "find_context t (contexts st') = Some i"
    unfolding c' find_context_update_current using GetContext_index[OF g] .
  show ?thesis
    using that[OF 1(2)[unfolded eq] c' ca _ _ cs'(1) _ _ f i] sa cs(2) cs'(2) clk
    by (simp add: sa'_def)
qed

lemma push_then_pop_current:
  assumes inv: "tree_inv st" and g: "GetContext t st = Inr (i, st0)"
    and push: "SectionPush t nm st = Inr st1" and pop: "SectionPop t st1 = Inr st2"
  shows "find_context t (contexts st2) = Some i"
    and "current (contexts st2 ! i) = current (contexts st0 ! i)"
    and "contexts st2 = contexts st0"
proof -
  from inv g push obtain cur a sa cs where p:
    "current (contexts st0 ! i) = Some cur"
    "contexts st1 = (contexts st0)[i := (contexts st0 ! i)\<lparr>current := Some a\<rparr>]"
    "cell (heap st1) a = Some sa" "parent sa = Some cur"
    "find_context t (contexts st1) = Some i" "i < length (contexts st0)"
    by (rule SectionPush_current)
  from pop obtain j st3 b sec where q:
    "GetContext t (st1\<lparr>ticks := Suc (ticks st1), end_time := clock st1 (ticks st1)\<rparr>) = Inr (j, st3)"
    "current (contexts st3 ! j) = Some b" "cell (heap st3) b = Some sec"
    "case parent sec of
       None \<Rightarrow> st2 = st3
     | Some p \<Rightarrow> (\<exists>sec'. record_time (end_time st3 - timer sec) sec = Inr sec' \<and>
                  st2 = set_current j (Some p) (st3\<lparr>heap := (heap st3)[b := Some sec']\<rparr>))"
    by (rule SectionPop_unfold)
  have "GetContext t (st1\<lparr>ticks := Suc (ticks st1), end_time := clock st1 (ticks st1)\<rparr>) =
        Inr (i, st1\<lparr>ticks := Suc (ticks st1), end_time := clock st1 (ticks st1)\<rparr>)"
    using p(5) by (simp add: GetContext_found)
  with q(1) have eq: "j = i" "st3 = st1\<lparr>ticks := Suc (ticks st1), end_time := clock st1 (ticks st1)\<rparr>"
    by simp_all
  have "b = a" using q(2) p(2,6) eq by simp
  then have "sec = sa" using q(3) p(3) eq by simp
  with q(4) p(4) obtain sec' where
    st2: "st2 = set_current j (Some cur) (st3\<lparr>heap := (heap st3)[b := Some sec']\<rparr>)" by auto
  have c2: "contexts st2 = contexts st0"
    using p(1,2,6) unfolding st2 eq
    by (simp add: list_eq_iff_nth_eq nth_list_update)
  show "contexts st2 = contexts st0" by (rule c2)
  show "find_context t (contexts st2) = Some i" unfolding c2 using GetContext_index[OF g]
      GetContext_same[OF g] by simp
  show "current (contexts st2 ! i) = current (contexts st0 ! i)" unfolding c2 ..
qed

lemma GetContext_frame:
  assumes "GetContext t st = Inr (i, st1)"
  shows "end_time st1 = end_time st" and "clock st1 = clock st" and "ticks st1 = ticks st"
  using assms
  by (auto simp: GetContext_def new_DProfileSection_def Let_def bind_res_Inr
      split: option.splits if_splits)

subsection \<open>The example states\<close>

lemmas ex_defs = ex_fresh_def ex_root_def ex_pushed_def ex_popped_def ex_repushed_def ex_cleared_def

lemma ex_steps:
  "GetContext 0 ex_fresh = Inr (0, ex_root)"
  "SectionPush 0 ''A'' ex_fresh = Inr ex_pushed"
  "SectionPop 0 ex_pushed = Inr ex_popped"
  "SectionPop 0 ex_root = Inr (ex_root\<lparr>ticks := 1, end_time := 0\<rparr>)"
  "SectionPush 0 ''A'' ex_popped = Inr ex_repushed"
  "Clear ex_popped = Inr ex_cleared"
  by (simp_all add: ex_defs eval_defs numeral_2_eq_2)

lemma ex_fresh_run: "run [] (fresh (mock_clock [0, 5, 10, 20])) = Inr ex_fresh"
  by (simp add: ex_fresh_def)

lemma ex_tree_inv: "tree_inv ex_fresh"
  by (simp add: ex_fresh_def tree_inv_fresh)

subsection \<open>The threads of the registry\<close>

lemma modify_contexts: "modify p f st = Inr st' \<Longrightarrow> contexts st' = contexts st"
  by (auto simp: modify_Inr)

lemma new_section_contexts: "new_DProfileSection st = Inr (a, st') \<Longrightarrow> contexts st' = contexts st"
  by (auto simp: new_DProfileSection_def split: if_splits)

lemma get_child_contexts:
  assumes "get_or_create_child cur nm st = Inr (a, st')"
  shows "contexts st' = contexts st"
  using assms
  by (auto simp: get_or_create_child_def bind_res_Inr modify_contexts case_prod_beta Let_def
      dest!: modify_contexts new_section_contexts split: option.splits)

lemma threads_update_current:
  "thread_context ` set (cs[i := (cs ! i)\<lparr>current := p\<rparr>]) = thread_context ` set cs"
proof -
  have "map thread_context (cs[i := (cs ! i)\<lparr>current := p\<rparr>]) = map thread_context cs"
    by (cases "i < length cs") (auto simp: list_eq_iff_nth_eq nth_list_update)
  then show ?thesis by (metis list.set_map)
qed

lemma GetContext_threads:
  assumes "GetContext t st = Inr (i, st1)"
  shows "thread_context ` set (contexts st1) = insert t (thread_context ` set (contexts st))"
proof (cases "find_context t (contexts st)")
  case None
  then show ?thesis using assms
    by (auto simp: GetContext_def new_DProfileSection_def Let_def split: if_splits)
next
  case (Some j)
  then have "t \<in> thread_context ` set (contexts st)"
    using find_context_None[of t "contexts st"] by auto
  then show ?thesis using assms Some by (auto simp: GetContext_found)
qed

lemma SectionPush_threads:
  assumes "SectionPush t nm st = Inr st'"
  shows "thread_context ` set (contexts st') = insert t (thread_context ` set (contexts st))"
  using assms
proof (cases rule: SectionPush_unfold)
  case (1 i st1 cur a st2 sa)
  have "contexts st' = (contexts st1)[i := (contexts st1 ! i)\<lparr>current := Some a\<rparr>]"
    using 1(5) get_child_contexts[OF 1(3)] by simp
  then show ?thesis using GetContext_threads[OF 1(1)] by (simp add: threads_update_current)
qed

lemma SectionPop_threads:
  assumes "SectionPop t st = Inr st'"
  shows "thread_context ` set (contexts st') = insert t (thread_context ` set (contexts st))"
  using assms
proof (cases rule: SectionPop_unfold)
  case (1 i st2 a sec)
  have "contexts st' = contexts st2 \<or>
        (\<exists>p. contexts st' = (contexts st2)[i := (contexts st2 ! i)\<lparr>current := p\<rparr>])"
    using 1(4) by (auto split: option.splits)
  then have "thread_context ` set (contexts st') = thread_context ` set (contexts st2)"
    using threads_update_current[of "contexts st2" i] by (elim disjE exE) simp_all
  then show ?thesis using GetContext_threads[OF 1(1)] by simp
qed

lemma since_clear_Cons:
  "since_clear (c # cs) =
     (if ClearAll \<in> set cs then since_clear cs else if c = ClearAll then cs else c # cs)"
  by (auto simp: since_clear_def takeWhile_append takeWhile_eq_all_conv[THEN iffD2])

lemma has_call_iff: "list_ex (is_call_of t) cs \<longleftrightarrow> (\<exists>c \<in> set cs. is_call_of t c)"
  by (simp add: list_ex_iff)

lemma run_threads:
  assumes "run tr st0 = Inr st"
  shows "thread_context ` set (contexts st) =
     (if ClearAll \<in> set tr then {} else thread_context ` set (contexts st0)) \<union>
     {t. list_ex (is_call_of t) (since_clear tr)}"
  using assms
proof (induction tr arbitrary: st0)
  case Nil
  then show ?case by (simp add: since_clear_def)
next
  case (Cons c cs)
  from Cons.prems obtain st1 where s: "step c st0 = Inr st1" and r: "run cs st1 = Inr st"
    by (auto simp: bind_res_Inr)
  note IH = Cons.IH[OF r]
  show ?case
  proof (cases "ClearAll \<in> set cs")
    case True
    then show ?thesis using IH by (simp add: since_clear_Cons)
  next
    case False
    have tw: "\<And>xs. \<forall>x\<in>set xs. x \<noteq> ClearAll \<Longrightarrow> takeWhile (\<lambda>c. c \<noteq> ClearAll) xs = xs"
      by simp
    have "takeWhile (\<lambda>c. c \<noteq> ClearAll) (rev cs) = rev cs"
      by (rule tw) (use False in auto)
    then have sc: "since_clear cs = cs" unfolding since_clear_def by (simp only: rev_rev_ident)
    show ?thesis
    proof (cases c)
      case (Push t nm)
      then have "thread_context ` set (contexts st1) = insert t (thread_context ` set (contexts st0))"
        using s SectionPush_threads by simp
      then show ?thesis using IH False Push sc by (auto simp: since_clear_Cons)
    next
      case (Pop t)
      then have "thread_context ` set (contexts st1) = insert t (thread_context ` set (contexts st0))"
        using s SectionPop_threads by simp
      then show ?thesis using IH False Pop sc by (auto simp: since_clear_Cons)
    next
      case ClearAll
      then have "contexts st1 = []" using s Clear_contexts by simp
      then show ?thesis using IH False ClearAll sc by (auto simp: since_clear_Cons)
    qed
  qed
qed

subsection \<open>Entries of the children maps persist\<close>

lemma GetContext_cell:
  assumes "GetContext t st = Inr (i, st1)" and "cell (heap st) p = Some ps"
  shows "cell (heap st1) p = Some ps"
proof (cases "find_context t (contexts st)")
  case None
  then show ?thesis using assms cell_append_Some
    by (auto simp: GetContext_def new_DProfileSection_def Let_def split: if_splits)
next
  case (Some j)
  then show ?thesis using assms by (simp add: GetContext_found)
qed

lemma update_keeps_entry:
  assumes "cell h b = Some s" and "children s' = children s"
    and "cell h p = Some ps" and "map_of (children ps) k = Some v"
  shows "\<exists>ps'. cell (h[b := Some s']) p = Some ps' \<and> map_of (children ps') k = Some v"
  using assms cell_Some_less[OF assms(1)] by (cases "p = b") (auto simp: cell_update)

lemma get_child_keeps_entry:
  assumes ok: "context_ok (heap st) c" and cur: "current c = Some cur"
    and res: "get_or_create_child cur nm st = Inr (a', st')"
    and p: "cell (heap st) p = Some ps" and k: "map_of (children ps) k = Some v"
  shows "\<exists>ps'. cell (heap st') p = Some ps' \<and> map_of (children ps') k = Some v"
  using ok cur res
proof (cases rule: get_child_cases)
  case (found cs)
  then show ?thesis using p k by simp
next
  case (created cs)
  have lt: "p < length (heap st)" using p by (rule cell_Some_less)
  show ?thesis
  proof (cases "p = cur")
    case True
    then have "ps = cs" using p created(1) by simp
    then have "k \<noteq> nm" using k created(2) by auto
    then show ?thesis
      using True \<open>ps = cs\<close> k lt
      by (simp add: created(5) cell_append cell_update map_of_map_assign)
  next
    case False
    then show ?thesis using p k lt cell_Some_less[OF created(1)]
      by (simp add: created(5) cell_append cell_update)
  qed
qed

lemma step_keeps_entry:
  assumes inv: "tree_inv st" and s: "step c st = Inr st'" and nc: "c \<noteq> ClearAll"
    and p: "cell (heap st) p = Some ps" and k: "map_of (children ps) k = Some v"
  shows "\<exists>ps'. cell (heap st') p = Some ps' \<and> map_of (children ps') k = Some v"
proof (cases c)
  case (Push t nm)
  then have "SectionPush t nm st = Inr st'" using s by simp
  then show ?thesis
  proof (cases rule: SectionPush_unfold)
    case (1 i st1 cur a st2 sa)
    have inv1: "tree_inv st1" using inv 1(1) by (rule GetContext_tree_inv)
    have i: "i < length (contexts st1)" using GetContext_less[OF 1(1)] by simp
    have p1: "cell (heap st1) p = Some ps" using 1(1) p by (rule GetContext_cell)
    from get_child_keeps_entry[OF tree_inv_nth[OF inv1 i] 1(2,3) p1 k]
    obtain ps2 where p2: "cell (heap st2) p = Some ps2" "map_of (children ps2) k = Some v" by blast
    have "\<exists>ps'. cell ((heap st2)[a := Some (sa\<lparr>timer := clock st2 (ticks st2)\<rparr>)]) p = Some ps' \<and>
        map_of (children ps') k = Some v"
      by (rule update_keeps_entry[OF 1(4) _ p2]) simp
    then show ?thesis by (simp add: 1(5))
  qed
next
  case (Pop t)
  then have "SectionPop t st = Inr st'" using s by simp
  then show ?thesis
  proof (cases rule: SectionPop_unfold)
    case (1 i st2 a sec)
    have p2: "cell (heap st2) p = Some ps" by (rule GetContext_cell[OF 1(1)]) (simp add: p)
    show ?thesis
    proof (cases "parent sec")
      case None
      then show ?thesis using 1(4) p2 k by simp
    next
      case (Some q)
      with 1(4) obtain sec' where rec: "record_time (end_time st2 - timer sec) sec = Inr sec'"
        and st': "st' = set_current i (Some q) (st2\<lparr>heap := (heap st2)[a := Some sec']\<rparr>)"
        by auto
      have "children sec' = children sec" using rec by (auto simp: record_time_Inr)
      from update_keeps_entry[OF 1(3) this p2 k] show ?thesis by (simp add: st')
    qed
  qed
next
  case ClearAll
  then show ?thesis using nc by simp
qed

lemma run_keeps_entry:
  assumes "tree_inv st" and "run tr st = Inr st'" and "ClearAll \<notin> set tr"
    and "cell (heap st) p = Some ps" and "map_of (children ps) k = Some v"
  shows "\<exists>ps'. cell (heap st') p = Some ps' \<and> map_of (children ps') k = Some v"
  using assms
proof (induction tr arbitrary: st ps)
  case Nil
  then show ?case by simp
next
  case (Cons c cs)
  from Cons.prems(2) obtain st1 where s: "step c st = Inr st1" and r: "run cs st1 = Inr st'"
    by (auto simp: bind_res_Inr)
  have nc: "c \<noteq> ClearAll" "ClearAll \<notin> set cs" using Cons.prems(3) by auto
  from step_keeps_entry[OF Cons.prems(1) s nc(1) Cons.prems(4,5)]
  obtain ps1 where ps1: "cell (heap st1) p = Some ps1" "map_of (children ps1) k = Some v" by blast
  show ?case
    by (rule Cons.IH[OF step_tree_inv[OF Cons.prems(1) s] r nc(2) ps1])
qed

subsection \<open>A second push of a label\<close>

lemma get_child_again:
  assumes inv: "tree_inv st" and c: "c \<in> set (contexts st)" and cur: "current c = Some cur"
    and res: "get_or_create_child cur nm st = Inr (a, st')"
  shows "get_or_create_child cur nm st' = Inr (a, st')"
proof -
  from c obtain i where i: "i < length (contexts st)" "contexts st ! i = c"
    by (auto simp: in_set_conv_nth)
  from tree_inv_nth[OF inv i(1)] i(2) obtain r where r: "toplevel (contexts st ! i) = Some r"
    by (auto simp: context_ok_def)
  from get_child_tree_inv(4)[OF inv i(1) _ r res] cur i(2)
  obtain cs where "cell (heap st') cur = Some cs" "map_of (children cs) nm = Some (Some a)" by auto
  then show ?thesis by (rule get_child_found)
qed

lemma SectionPush_again:
  assumes inv: "tree_inv st" and g: "GetContext t st = Inr (i, st0)"
    and p1: "SectionPush t nm st = Inr st1"
    and tr: "run tr st1 = Inr st2" and nc: "ClearAll \<notin> set tr"
    and j: "find_context t (contexts st2) = Some j"
    and bk: "current (contexts st2 ! j) = current (contexts st0 ! i)"
    and p2: "SectionPush t nm st2 = Inr st3"
  shows "current (contexts st3 ! j) = current (contexts st1 ! i)"
    and "map (map_option children) (heap st3) = map (map_option children) (heap st2)"
proof -
  from inv g p1 obtain cur a sa cs where f:
    "current (contexts st0 ! i) = Some cur"
    "contexts st1 = (contexts st0)[i := (contexts st0 ! i)\<lparr>current := Some a\<rparr>]"
    "cell (heap st1) cur = Some cs" "map_of (children cs) nm = Some (Some a)"
    "i < length (contexts st0)"
    by (rule SectionPush_current)
  have a1: "current (contexts st1 ! i) = Some a" using f(2,5) by simp
  have inv1: "tree_inv st1" using inv p1 by (rule SectionPush_tree_inv)
  from run_keeps_entry[OF inv1 tr nc f(3,4)]
  obtain cs2 where cs2: "cell (heap st2) cur = Some cs2" "map_of (children cs2) nm = Some (Some a)"
    by blast
  have jl: "j < length (contexts st2)" using find_context_Some[OF j] by simp
  from p2 obtain i' st' cur' a' st2' sa' where u:
    "GetContext t st2 = Inr (i', st')" "current (contexts st' ! i') = Some cur'"
    "get_or_create_child cur' nm st' = Inr (a', st2')" "cell (heap st2') a' = Some sa'"
    "st3 = (set_current i' (Some a') st2')
             \<lparr>ticks := Suc (ticks st2'),
              heap := (heap st2')[a' := Some (sa'\<lparr>timer := clock st2' (ticks st2')\<rparr>)]\<rparr>"
    by (rule SectionPush_unfold)
  have e1: "i' = j" "st' = st2" using u(1) GetContext_found[OF j] by simp_all
  have e2: "cur' = cur" using u(2) bk f(1) e1 by simp
  have e3: "a' = a" "st2' = st2" using u(3) get_child_found[OF cs2] e1 e2 by simp_all
  show "current (contexts st3 ! j) = current (contexts st1 ! i)"
    using a1 jl by (simp add: u(5) e1 e3)
  have "map (map_option children) ((heap st2)[a := Some (sa'\<lparr>timer := clock st2 (ticks st2)\<rparr>)]) =
        map (map_option children) (heap st2)"
    using u(4)[unfolded e3]
    by (auto simp: list_eq_iff_nth_eq nth_list_update cell_def split: if_splits)
  then show "map (map_option children) (heap st3) = map (map_option children) (heap st2)"
    by (simp add: u(5) e3)
qed

subsection \<open>Sorting and the display\<close>

lemma mset_insert_by: "mset (insert_by lt x ys) = add_mset x (mset ys)"
  by (induction ys) auto

lemma mset_insertion_sort: "mset (insertion_sort lt xs) = mset xs"
  by (induction xs) (auto simp: mset_insert_by)

lemma set_insert_by: "set (insert_by lt x ys) = insert x (set ys)"
  by (metis mset_insert_by set_mset_add_mset_insert set_mset_mset)

lemma sorted_insert_by:
  assumes "strict_weak_ordering lt" and "sorted_wrt (\<lambda>x y. \<not> lt y x) ys"
  shows "sorted_wrt (\<lambda>x y. \<not> lt y x) (insert_by lt x ys)"
  using assms(2)
proof (induction ys)
  case Nil
  then show ?case by simp
next
  case (Cons y ys)
  have irr: "\<And>a. \<not> lt a a" and tr: "\<And>a b c. lt a b \<Longrightarrow> lt b c \<Longrightarrow> lt a c"
    and nt: "\<And>a b c. \<not> lt a b \<Longrightarrow> \<not> lt b c \<Longrightarrow> \<not> lt a c"
    using assms(1) unfolding strict_weak_ordering_def by blast+
  show ?case
  proof (cases "lt y x")
    case True
    then have "\<not> lt x y" using irr tr by blast
    then show ?thesis using True Cons by (auto simp: set_insert_by)
  next
    case False
    then have "\<forall>z \<in> set ys. \<not> lt z x" using Cons.prems nt by auto
    then show ?thesis using False Cons.prems by auto
  qed
qed

lemma std_sort_insertion_sort: "std_sort insertion_sort"
proof -
  have "sorted_wrt (\<lambda>x y. \<not> lt y x) (insertion_sort lt xs)"
    if "strict_weak_ordering lt" for lt :: "'a \<Rightarrow> 'a \<Rightarrow> bool" and xs
    by (induction xs) (auto intro: sorted_insert_by[OF that])
  then show ?thesis unfolding std_sort_def using mset_insertion_sort by blast
qed

lemma strict_weak_reverse_time:
  "strict_weak_ordering (\<lambda>a b :: addr \<times> DProfileSection. reverse_time_comparator (snd a) (snd b))"
  unfolding strict_weak_ordering_def reverse_time_comparator_def by auto

lemma strict_weak_execution_order:
  "strict_weak_ordering (\<lambda>a b :: addr \<times> DProfileSection. execution_order_comparator (snd a) (snd b))"
  unfolding strict_weak_ordering_def execution_order_comparator_def by auto

lemma load_all_Inr:
  "load_all h ps = Inr v \<Longrightarrow> map (Some \<circ> fst) v = ps \<and> (\<forall>(a, sect) \<in> set v. cell h a = Some sect)"
proof (induction ps arbitrary: v)
  case Nil
  then show ?case by simp
next
  case (Cons p ps)
  from Cons.prems obtain s w where s: "deref h p = Inr s" and w: "load_all h ps = Inr w"
    and v: "v = (the p, s) # w"
    by (auto simp: bind_res_Inr)
  from s obtain a where "p = Some a" "cell h a = Some s" by (auto simp: deref_Inr)
  then show ?case using Cons.IH[OF w] v by auto
qed

lemma children_vect_sorted:
  assumes srt: "std_sort srt" and res: "children_vect srt h s sort_by = Inr v"
  shows "mset (map (Some \<circ> fst) v) = mset (map snd (children s))"
    and "\<forall>(a, sect) \<in> set v. cell h a = Some sect"
    and "sort_by = SORT_EXECUTION \<Longrightarrow>
           sorted_wrt (\<lambda>x y. exec_order_id (snd x) \<le> exec_order_id (snd y)) v"
    and "sort_by = SORT_TIME \<Longrightarrow>
           sorted_wrt (\<lambda>x y. avg_time (snd y) * real_of_int (call_count (snd y))
                          \<le> avg_time (snd x) * real_of_int (call_count (snd x))) v"
proof -
  from res obtain w where w: "load_all h (map snd (children s)) = Inr w"
    and v: "v = (case sort_by of
              SORT_TIME \<Rightarrow> srt (\<lambda>a b. reverse_time_comparator (snd a) (snd b)) w
            | SORT_EXECUTION \<Rightarrow> srt (\<lambda>a b. execution_order_comparator (snd a) (snd b)) w)"
    by (auto simp: children_vect_def bind_res_Inr)
  note l = load_all_Inr[OF w]
  have perm: "mset v = mset w"
    using srt strict_weak_reverse_time strict_weak_execution_order
    unfolding v std_sort_def by (cases sort_by) auto
  have "mset (map (Some \<circ> fst) v) = mset (map (Some \<circ> fst) w)"
    using perm by (metis mset_map)
  then show "mset (map (Some \<circ> fst) v) = mset (map snd (children s))" using l by simp
  have "set v = set w" using perm by (metis set_mset_mset)
  then show "\<forall>(a, sect) \<in> set v. cell h a = Some sect" using l by simp
  show "sorted_wrt (\<lambda>x y. exec_order_id (snd x) \<le> exec_order_id (snd y)) v"
    if "sort_by = SORT_EXECUTION"
  proof -
    have "sorted_wrt (\<lambda>x y. \<not> execution_order_comparator (snd y) (snd x)) v"
      using srt strict_weak_execution_order that unfolding v std_sort_def by auto
    then show ?thesis
      by (rule sorted_wrt_mono_rel[rotated]) (simp add: execution_order_comparator_def)
  qed
  show "sorted_wrt (\<lambda>x y. avg_time (snd y) * real_of_int (call_count (snd y))
                          \<le> avg_time (snd x) * real_of_int (call_count (snd x))) v"
    if "sort_by = SORT_TIME"
  proof -
    have "sorted_wrt (\<lambda>x y. \<not> reverse_time_comparator (snd y) (snd x)) v"
      using srt strict_weak_reverse_time that unfolding v std_sort_def by auto
    then show ?thesis
      by (rule sorted_wrt_mono_rel[rotated]) (simp add: reverse_time_comparator_def)
  qed
qed

lemma Display_loop_blocks:
  assumes "Display_loop srt fuel h prefix sort_by v = Inr rows"
  shows "\<exists>blocks. length blocks = length v \<and> rows = concat blocks \<and>
     (\<forall>i<length v. \<exists>below. blocks ! i = row_of prefix (snd (v ! i)) # below \<and>
        DProfileSection_Display srt fuel h (fst (v ! i))
          (next_prefix prefix (Suc i = length v) @ ''| '') sort_by = Inr below)"
  using assms
proof (induction v arbitrary: rows)
  case Nil
  then show ?case by simp
next
  case (Cons x v)
  obtain a sect where x: "x = (a, sect)" by (cases x)
  from Cons.prems obtain below after where
    b: "DProfileSection_Display srt fuel h a (next_prefix prefix (v = []) @ ''| '') sort_by = Inr below"
    and af: "Display_loop srt fuel h prefix sort_by v = Inr after"
    and rows: "rows = row_of prefix sect # below @ after"
    by (auto simp: x bind_res_Inr)
  from Cons.IH[OF af] obtain blocks where bl: "length blocks = length v" "after = concat blocks"
    "\<forall>i<length v. \<exists>below. blocks ! i = row_of prefix (snd (v ! i)) # below \<and>
        DProfileSection_Display srt fuel h (fst (v ! i))
          (next_prefix prefix (Suc i = length v) @ ''| '') sort_by = Inr below"
    by blast
  let ?bs = "(row_of prefix sect # below) # blocks"
  have "\<exists>below. ?bs ! i = row_of prefix (snd ((x # v) ! i)) # below \<and>
        DProfileSection_Display srt fuel h (fst ((x # v) ! i))
          (next_prefix prefix (Suc i = length (x # v)) @ ''| '') sort_by = Inr below"
    if "i < length (x # v)" for i
  proof (cases i)
    case 0
    then show ?thesis using b x by simp
  next
    case (Suc j)
    then show ?thesis using bl(3) that by simp
  qed
  moreover have "length ?bs = length (x # v)" "rows = concat ?bs" using bl rows by simp_all
  ultimately show ?case by blast
qed

lemma ex_store_run:
  "run [Push 0 ''fast'', Pop 0, Push 0 ''slow'', Pop 0] (fresh (mock_clock [0, 10, 10, 110])) =
   Inr \<lparr>contexts = [\<lparr>thread_context = 0, toplevel = Some 0, current = Some 0\<rparr>],
        EXEC_ORDER_ID = 3, end_time = 110, heap = ex_store,
        clock = mock_clock [0, 10, 10, 110], ticks = 4\<rparr>"
  by (simp add: eval_defs ex_store_def ex_top_def ex_fast_def ex_slow_def)

lemma ex_children_vect:
  "children_vect insertion_sort ex_store ex_top SORT_TIME = Inr [(2, ex_slow), (1, ex_fast)]"
  "children_vect insertion_sort ex_store ex_top SORT_EXECUTION = Inr [(1, ex_fast), (2, ex_slow)]"
  by (simp_all add: children_vect_def ex_store_def ex_top_def ex_fast_def ex_slow_def deref_def
      reverse_time_comparator_def execution_order_comparator_def)

lemma ex_display:
  "DProfileSection_Display insertion_sort (Suc (Suc 0)) ex_store 0 ''| '' SORT_TIME =
     Inr [row_of ''| '' ex_slow, row_of ''| '' ex_fast]"
  by (simp add: children_vect_def ex_store_def ex_top_def ex_fast_def ex_slow_def deref_def
      reverse_time_comparator_def execution_order_comparator_def)

subsection \<open>Call counts and total times along a trace\<close>

lemma totals_append:
  assumes "cell h a = None \<longrightarrow> length h \<le> a" and "call_count x = 0"
  shows "totals (h @ [Some x]) a = totals h a"
    and "cell (h @ [Some x]) a = None \<longrightarrow> length (h @ [Some x]) \<le> a"
  using assms by (auto simp: totals_def cell_def nth_append split: if_splits)

lemma totals_update:
  assumes "cell h b = Some s" and "call_count s' = call_count s" and "avg_time s' = avg_time s"
  shows "totals (h[b := Some s']) a = totals h a"
    and "(cell (h[b := Some s']) a = None) = (cell h a = None)"
  using assms cell_Some_less[OF assms(1)] by (auto simp: totals_def cell_update)

lemma GetContext_totals:
  assumes "GetContext t st = Inr (i, st1)" and "cell (heap st) a = None \<longrightarrow> length (heap st) \<le> a"
  shows "totals (heap st1) a = totals (heap st) a"
    and "cell (heap st1) a = None \<longrightarrow> length (heap st1) \<le> a"
proof -
  have "totals (heap st1) a = totals (heap st) a \<and>
        (cell (heap st1) a = None \<longrightarrow> length (heap st1) \<le> a)"
  proof (cases "find_context t (contexts st)")
    case None
    then show ?thesis
      using assms(1) totals_append[OF assms(2), of "constructed (EXEC_ORDER_ID st)"]
      by (auto simp: GetContext_def new_DProfileSection_def Let_def constructed_def
          split: if_splits)
  next
    case (Some j)
    then show ?thesis using assms by (simp add: GetContext_found)
  qed
  then show "totals (heap st1) a = totals (heap st) a"
    and "cell (heap st1) a = None \<longrightarrow> length (heap st1) \<le> a" by simp_all
qed

lemma get_child_totals:
  assumes ok: "context_ok (heap st) c" and cur: "current c = Some cur"
    and res: "get_or_create_child cur nm st = Inr (b, st')"
    and al: "cell (heap st) a = None \<longrightarrow> length (heap st) \<le> a"
  shows "totals (heap st') a = totals (heap st) a"
    and "cell (heap st') a = None \<longrightarrow> length (heap st') \<le> a"
proof -
  have "totals (heap st') a = totals (heap st) a \<and>
        (cell (heap st') a = None \<longrightarrow> length (heap st') \<le> a)"
    using ok cur res
  proof (cases rule: get_child_cases)
    case (found cs)
    then show ?thesis using al by simp
  next
    case (created cs)
    let ?h1 = "(heap st)[cur := Some (cs\<lparr>children := map_assign nm (Some (length (heap st))) (children cs)\<rparr>)]"
    have 1: "totals ?h1 a = totals (heap st) a" "(cell ?h1 a = None) = (cell (heap st) a = None)"
      by (rule totals_update[OF created(1)]; simp)+
    have 2: "cell ?h1 a = None \<longrightarrow> length ?h1 \<le> a" using 1(2) al by simp
    have 3: "heap st' = ?h1 @ [Some ((constructed (EXEC_ORDER_ID st))\<lparr>parent := Some cur, name := nm\<rparr>)]"
      using created(5) by simp
    show ?thesis
      unfolding 3 using totals_append[OF 2, of "(constructed (EXEC_ORDER_ID st))\<lparr>parent := Some cur, name := nm\<rparr>"] 1(1)
      by (simp add: constructed_def)
  qed
  then show "totals (heap st') a = totals (heap st) a"
    and "cell (heap st') a = None \<longrightarrow> length (heap st') \<le> a" by simp_all
qed

lemma SectionPush_totals:
  assumes inv: "tree_inv st" and res: "SectionPush t nm st = Inr st'"
    and al: "cell (heap st) a = None \<longrightarrow> length (heap st) \<le> a"
  shows "totals (heap st') a = totals (heap st) a"
    and "cell (heap st') a = None \<longrightarrow> length (heap st') \<le> a"
proof -
  have "totals (heap st') a = totals (heap st) a \<and>
        (cell (heap st') a = None \<longrightarrow> length (heap st') \<le> a)"
    using res
  proof (cases rule: SectionPush_unfold)
    case (1 i st1 cur b st2 sb)
    have inv1: "tree_inv st1" using inv 1(1) by (rule GetContext_tree_inv)
    have i: "i < length (contexts st1)" using GetContext_less[OF 1(1)] by simp
    note g = GetContext_totals[OF 1(1) al]
    note c = get_child_totals[OF tree_inv_nth[OF inv1 i] 1(2,3) g(2)]
    note u = totals_update[OF 1(4), of "sb\<lparr>timer := clock st2 (ticks st2)\<rparr>" a]
    have "length (heap st') = length (heap st2)" by (simp add: 1(5))
    then show ?thesis using g c u by (simp add: 1(5))
  qed
  then show "totals (heap st') a = totals (heap st) a"
    and "cell (heap st') a = None \<longrightarrow> length (heap st') \<le> a" by simp_all
qed

lemma record_time_totals:
  assumes "record_time d s = Inr s'"
  shows "call_count s' = call_count s + 1"
    and "avg_time s' * real_of_int (call_count s') = avg_time s * real_of_int (call_count s) + d"
proof -
  from assms have c: "call_count s \<noteq> - 1"
    and s': "s' = s\<lparr>call_count := call_count s + 1,
            avg_time := (d + avg_time s * real_of_int (call_count s)) / real_of_int (call_count s + 1)\<rparr>"
    by (auto simp: record_time_Inr)
  show "call_count s' = call_count s + 1" by (simp add: s')
  have "real_of_int (call_count s + 1) \<noteq> 0" using c by (metis add.commute add_eq_0_iff of_int_eq_0_iff)
  then show "avg_time s' * real_of_int (call_count s') = avg_time s * real_of_int (call_count s) + d"
    by (simp add: s')
qed

lemma SectionPop_totals:
  assumes res: "SectionPop t st = Inr st'"
    and al: "cell (heap st) a = None \<longrightarrow> length (heap st) \<le> a"
  shows "totals (heap st') a =
           (fst (totals (heap st) a) + int (length (pop_duration a t st)),
            snd (totals (heap st) a) + sum_list (pop_duration a t st))"
    and "cell (heap st') a = None \<longrightarrow> length (heap st') \<le> a"
proof -
  let ?st = "st\<lparr>ticks := Suc (ticks st), end_time := clock st (ticks st)\<rparr>"
  have "totals (heap st') a =
           (fst (totals (heap st) a) + int (length (pop_duration a t st)),
            snd (totals (heap st) a) + sum_list (pop_duration a t st)) \<and>
        (cell (heap st') a = None \<longrightarrow> length (heap st') \<le> a)"
    using res
  proof (cases rule: SectionPop_unfold)
    case (1 i st2 b sec)
    have al0: "cell (heap ?st) a = None \<longrightarrow> length (heap ?st) \<le> a" using al by simp
    note g = GetContext_totals[OF 1(1) al0]
    show ?thesis
    proof (cases "find_context t (contexts st)")
      case None
      then have pd: "pop_duration a t st = []" by (simp add: pop_duration_def)
      have lt: "EXEC_ORDER_ID ?st < INT_MAX"
        using GetContext_new_overflow[of t ?st] None 1(1) by fastforce
      from GetContext_new[of t ?st, OF _ lt] None 1(1)
      have "i = length (contexts st)" and
        st2: "st2 = ?st\<lparr>heap := heap st @ [Some (constructed (EXEC_ORDER_ID st))],
              EXEC_ORDER_ID := EXEC_ORDER_ID st + 1,
              contexts := contexts st @
                [\<lparr>thread_context = t, toplevel = Some (length (heap st)),
                  current = Some (length (heap st))\<rparr>]\<rparr>"
        by simp_all
      then have "b = length (heap st)" using 1(2) by simp
      then have "sec = constructed (EXEC_ORDER_ID st)" using 1(3) st2 by (simp add: cell_append)
      then have "parent sec = None" by (simp add: constructed_def)
      then have "st' = st2" using 1(4) by simp
      then show ?thesis using g pd by simp
    next
      case (Some j)
      then have e: "i = j" "st2 = ?st" using 1(1) by (simp_all add: GetContext_found)
      have cb: "current (contexts st ! j) = Some b" "cell (heap st) b = Some sec"
        using 1(2,3) e by simp_all
      show ?thesis
      proof (cases "parent sec")
        case None
        then have "pop_duration a t st = []" using Some cb by (auto simp: pop_duration_def)
        moreover have "st' = st2" using 1(4) None by simp
        ultimately show ?thesis using g by simp
      next
        case (Some p)
        with 1(4) obtain sec' where rec: "record_time (end_time st2 - timer sec) sec = Inr sec'"
          and st': "st' = set_current i (Some p) (st2\<lparr>heap := (heap st2)[b := Some sec']\<rparr>)"
          by auto
        have h': "heap st' = (heap st)[b := Some sec']" using st' e by simp
        have d: "end_time st2 - timer sec = clock st (ticks st) - timer sec" using e by simp
        note rt = record_time_totals[OF rec[unfolded d]]
        have lt: "b < length (heap st)" using cb(2) by (rule cell_Some_less)
        show ?thesis
        proof (cases "b = a")
          case True
          then have "pop_duration a t st = [clock st (ticks st) - timer sec]"
            using \<open>find_context t (contexts st) = Some j\<close> cb Some by (auto simp: pop_duration_def)
          then show ?thesis using True cb(2) rt lt by (simp add: h' totals_def cell_update)
        next
          case False
          then have "pop_duration a t st = []"
            using \<open>find_context t (contexts st) = Some j\<close> cb by (auto simp: pop_duration_def)
          then show ?thesis using False al lt by (simp add: h' totals_def cell_update)
        qed
      qed
    qed
  qed
  then show "totals (heap st') a =
           (fst (totals (heap st) a) + int (length (pop_duration a t st)),
            snd (totals (heap st) a) + sum_list (pop_duration a t st))"
    and "cell (heap st') a = None \<longrightarrow> length (heap st') \<le> a" by simp_all
qed

lemma run_totals:
  assumes "tree_inv st" and "run tr st = Inr st'" and "ClearAll \<notin> set tr"
    and "cell (heap st) a = None \<longrightarrow> length (heap st) \<le> a"
  shows "totals (heap st') a =
           (fst (totals (heap st) a) + int (length (durations_at a tr st)),
            snd (totals (heap st) a) + sum_list (durations_at a tr st))"
  using assms
proof (induction tr arbitrary: st)
  case Nil
  then show ?case by simp
next
  case (Cons c cs)
  from Cons.prems(2) obtain st1 where s: "step c st = Inr st1" and r: "run cs st1 = Inr st'"
    by (auto simp: bind_res_Inr)
  have nc: "c \<noteq> ClearAll" "ClearAll \<notin> set cs" using Cons.prems(3) by auto
  have inv1: "tree_inv st1" using Cons.prems(1) s by (rule step_tree_inv)
  have one: "totals (heap st1) a =
           (fst (totals (heap st) a) + int (length (call_duration a c st)),
            snd (totals (heap st) a) + sum_list (call_duration a c st)) \<and>
        (cell (heap st1) a = None \<longrightarrow> length (heap st1) \<le> a)"
  proof (cases c)
    case (Push t nm)
    then show ?thesis
      using SectionPush_totals[OF Cons.prems(1) _ Cons.prems(4), of t nm st1] s by simp
  next
    case (Pop t)
    then show ?thesis using SectionPop_totals[OF _ Cons.prems(4), of t st1] s by simp
  next
    case ClearAll
    then show ?thesis using nc by simp
  qed
  from Cons.IH[OF inv1 r nc(2)] one
  show ?case by (simp add: s)
qed

lemma ex_twice_run:
  "run [Push 0 ''A'', Pop 0, Push 0 ''A'', Pop 0] ex_fresh = Inr ex_twice"
  by (simp add: ex_twice_def ex_A_def ex_fresh_def eval_defs)

lemma ex_twice_durations:
  "durations_at 1 [Push 0 ''A'', Pop 0, Push 0 ''A'', Pop 0] ex_fresh = [5, 10]"
  by (simp add: ex_fresh_def eval_defs pop_duration_def cell_def)

subsection \<open>Subtrees\<close>

lemma reach_trans: assumes "reach h b c" shows "reach h a b \<Longrightarrow> reach h a c"
  using assms by (induction rule: reach.induct) (auto intro: reach_child)

lemma reach_iff_descend: "reach h a x \<longleftrightarrow> (\<exists>ks. descend h a ks = Some x)"
  using reach_descend descend_reach by blast

lemma reach_unfold:
  "reach h a x \<longleftrightarrow>
     x = a \<or> (\<exists>s k c. cell h a = Some s \<and> map_of (children s) k = Some (Some c) \<and> reach h c x)"
proof
  assume "reach h a x"
  then obtain ks where ks: "descend h a ks = Some x" using reach_descend by blast
  show "x = a \<or> (\<exists>s k c. cell h a = Some s \<and> map_of (children s) k = Some (Some c) \<and> reach h c x)"
  proof (cases ks)
    case Nil
    then show ?thesis using ks by simp
  next
    case (Cons k ks')
    then obtain s c where "cell h a = Some s" "map_of (children s) k = Some (Some c)"
      "descend h c ks' = Some x"
      using ks by (auto split: option.splits)
    then show ?thesis using descend_reach by blast
  qed
next
  assume "x = a \<or> (\<exists>s k c. cell h a = Some s \<and> map_of (children s) k = Some (Some c) \<and> reach h c x)"
  then show "reach h a x"
  proof
    assume "x = a" then show ?thesis by (simp add: reach_root)
  next
    assume "\<exists>s k c. cell h a = Some s \<and> map_of (children s) k = Some (Some c) \<and> reach h c x"
    then obtain s k c where a: "cell h a = Some s" "map_of (children s) k = Some (Some c)"
      and r: "reach h c x" by blast
    have "reach h a c" using reach_root a by (rule reach_child)
    then show ?thesis using r reach_trans by blast
  qed
qed

lemma descend_child:
  assumes "descend h r p = Some a" and "cell h a = Some s" and "map_of (children s) k = Some (Some c)"
    and "descend h c q = Some x"
  shows "descend h r (p @ k # q) = Some x"
  using assms by (simp add: descend_append)

text \<open>A child's subtree does not hold its parent, and the subtrees of two keys are disjoint.\<close>

lemma tree_at_acyclic:
  assumes "tree_at h r" and "reach h r a" and "cell h a = Some s"
    and "map_of (children s) k = Some (Some c)" and "reach h c x"
  shows "x \<noteq> a"
proof
  assume "x = a"
  from assms(2) obtain p where p: "descend h r p = Some a" using reach_descend by blast
  from assms(5) obtain q where q: "descend h c q = Some x" using reach_descend by blast
  have "descend h r (p @ k # q) = Some a" using descend_child[OF p assms(3,4) q] \<open>x = a\<close> by simp
  from tree_at_descend_unique[OF assms(1) p this] show False by simp
qed

lemma tree_at_siblings_disjoint:
  assumes "tree_at h r" and "reach h r a" and "cell h a = Some s"
    and "map_of (children s) k = Some (Some c)" and "map_of (children s) k' = Some (Some c')"
    and "k \<noteq> k'" and "reach h c x"
  shows "\<not> reach h c' x"
proof
  assume "reach h c' x"
  then obtain q' where q': "descend h c' q' = Some x" using reach_descend by blast
  from assms(2) obtain p where p: "descend h r p = Some a" using reach_descend by blast
  from assms(7) obtain q where q: "descend h c q = Some x" using reach_descend by blast
  from tree_at_descend_unique[OF assms(1) descend_child[OF p assms(3,4) q]
      descend_child[OF p assms(3,5) q']]
  show False using assms(6) by simp
qed

text \<open>In a tree no path is longer than the store.\<close>

lemma descend_prefix:
  assumes "descend h r ks = Some x" and "n \<le> length ks"
  shows "\<exists>y. descend h r (take n ks) = Some y"
proof -
  have "descend h r (take n ks @ drop n ks) = Some x" using assms(1) by simp
  then show ?thesis unfolding descend_append by (auto split: option.splits)
qed

lemma tree_at_depth:
  assumes tree: "tree_at h r" and ks: "descend h r ks = Some x"
  shows "length ks < length h"
proof -
  define f where "f n = the (descend h r (take n ks))" for n
  have def: "descend h r (take n ks) = Some (f n)" if "n \<le> length ks" for n
    using descend_prefix[OF ks that] by (auto simp: f_def)
  have inj: "inj_on f {0..length ks}"
  proof (rule inj_onI)
    fix n m assume n: "n \<in> {0..length ks}" and m: "m \<in> {0..length ks}" and e: "f n = f m"
    have "take n ks = take m ks"
      using tree_at_descend_unique[OF tree def[of n] def[of m, folded e]] n m by simp
    then have "length (take n ks) = length (take m ks)" by simp
    then show "n = m" using n m by simp
  qed
  have "f ` {0..length ks} \<subseteq> {..<length h}"
  proof
    fix y assume "y \<in> f ` {0..length ks}"
    then obtain n where "n \<le> length ks" "y = f n" by auto
    then have "reach h r y" using def descend_reach by blast
    then show "y \<in> {..<length h}" using tree_at_less[OF tree] by simp
  qed
  then have "card (f ` {0..length ks}) \<le> card {..<length h}" by (intro card_mono) simp_all
  then have "card {0..length ks} \<le> length h" using card_image[OF inj] by simp
  then show ?thesis by simp
qed

subsection \<open>The destructor releases a subtree\<close>

lemma freed_refl: "freed {} h h"
  by (simp add: freed_def)

lemma freed_trans: "freed S h h1 \<Longrightarrow> freed T h1 h2 \<Longrightarrow> freed (S \<union> T) h h2"
  by (auto simp: freed_def)

lemma delete_children_subtrees:
  assumes tree: "tree_at h0 r" and kd: "keys_distinct h0"
    and P: "\<And>c h. reach h0 r c \<Longrightarrow> (\<forall>ks x. descend h0 c ks = Some x \<longrightarrow> length ks < fuel) \<Longrightarrow>
              length h = length h0 \<Longrightarrow> (\<forall>x. reach h0 c x \<longrightarrow> cell h x = cell h0 x) \<Longrightarrow>
              \<exists>h'. delete_section fuel (Some c) h = Inr h' \<and> freed {x. reach h0 c x} h h'"
    and a: "reach h0 r a" "cell h0 a = Some s"
    and H: "\<forall>ks x. descend h0 a ks = Some x \<longrightarrow> length ks < Suc fuel"
  shows "set m \<subseteq> set (children s) \<Longrightarrow> distinct (map fst m) \<Longrightarrow> length h = length h0 \<Longrightarrow>
         (\<forall>k c x. (k, Some c) \<in> set m \<and> reach h0 c x \<longrightarrow> cell h x = cell h0 x) \<Longrightarrow>
         \<exists>h'. delete_children fuel m h = Inr h' \<and>
              freed {x. \<exists>k c. (k, Some c) \<in> set m \<and> reach h0 c x} h h'"
proof (induction m arbitrary: h)
  case Nil
  then show ?case by (simp add: freed_refl)
next
  case (Cons e m)
  obtain k p where e: "e = (k, p)" by (cases e)
  have ds: "distinct (map fst (children s))" using kd a(2) by (auto simp: keys_distinct_def)
  have mk: "map_of (children s) k = Some p" using Cons.prems(1) ds e by simp
  have nok: "node_ok h0 r a" using tree a(1) by (simp add: tree_at_def)
  then obtain c where c: "p = Some c" using mk a(2) unfolding node_ok_def by fastforce
  have rc: "reach h0 r c" using a mk c by (auto intro: reach_child)
  have Hc: "\<forall>ks x. descend h0 c ks = Some x \<longrightarrow> length ks < fuel"
  proof (intro allI impI)
    fix ks x assume "descend h0 c ks = Some x"
    then have "descend h0 a (k # ks) = Some x" using a(2) mk c by simp
    then show "length ks < fuel" using H by fastforce
  qed
  have ag: "\<forall>x. reach h0 c x \<longrightarrow> cell h x = cell h0 x"
    using Cons.prems(4) e c by auto
  from P[OF rc Hc Cons.prems(3) ag] obtain h1 where
    d1: "delete_section fuel (Some c) h = Inr h1" and f1: "freed {x. reach h0 c x} h h1" by blast
  have l1: "length h1 = length h0" using f1 Cons.prems(3) by (simp add: freed_def)
  have ag1: "\<forall>k' c' x. (k', Some c') \<in> set m \<and> reach h0 c' x \<longrightarrow> cell h1 x = cell h0 x"
  proof (intro allI impI)
    fix k' c' x assume h: "(k', Some c') \<in> set m \<and> reach h0 c' x"
    then have kk: "k' \<noteq> k" using Cons.prems(2) e by force
    have mk': "map_of (children s) k' = Some (Some c')" using h Cons.prems(1) ds by auto
    have "\<not> reach h0 c x"
      using tree_at_siblings_disjoint[OF tree a(1,2) mk' mk[unfolded c] kk] h by blast
    then have "cell h1 x = cell h x" using f1 by (simp add: freed_def)
    then show "cell h1 x = cell h0 x" using Cons.prems(4) h by auto
  qed
  from Cons.IH[OF _ _ l1 ag1] Cons.prems(1,2) obtain h2 where
    d2: "delete_children fuel m h1 = Inr h2"
    and f2: "freed {x. \<exists>k c. (k, Some c) \<in> set m \<and> reach h0 c x} h1 h2" by auto
  have "{x. \<exists>k' c'. (k', Some c') \<in> set (e # m) \<and> reach h0 c' x} =
        {x. reach h0 c x} \<union> {x. \<exists>k c. (k, Some c) \<in> set m \<and> reach h0 c x}"
    using e c by auto
  then have "freed {x. \<exists>k' c'. (k', Some c') \<in> set (e # m) \<and> reach h0 c' x} h h2"
    using freed_trans[OF f1 f2] by simp
  moreover have "delete_children fuel (e # m) h = Inr h2" using d1 d2 e c by simp
  ultimately show ?case by blast
qed

lemma delete_section_subtree:
  assumes tree: "tree_at h0 r" and kd: "keys_distinct h0"
  shows "reach h0 r a \<Longrightarrow> (\<forall>ks x. descend h0 a ks = Some x \<longrightarrow> length ks < fuel) \<Longrightarrow>
         length h = length h0 \<Longrightarrow> (\<forall>x. reach h0 a x \<longrightarrow> cell h x = cell h0 x) \<Longrightarrow>
         \<exists>h'. delete_section fuel (Some a) h = Inr h' \<and> freed {x. reach h0 a x} h h'"
proof (induction fuel arbitrary: a h)
  case 0
  have "descend h0 a [] = Some a" by simp
  then show ?case using "0.prems"(2) by blast
next
  case (Suc fuel)
  obtain s where s: "cell h0 a = Some s" using tree_at_allocated[OF tree Suc.prems(1)] by blast
  have sh: "cell h a = Some s" using Suc.prems(4) s reach_root[of h0 a] by simp
  let ?S = "{x. \<exists>k c. (k, Some c) \<in> set (children s) \<and> reach h0 c x}"
  have ds: "distinct (map fst (children s))" using kd s by (auto simp: keys_distinct_def)
  have ag: "\<forall>k c x. (k, Some c) \<in> set (children s) \<and> reach h0 c x \<longrightarrow> cell h x = cell h0 x"
  proof (intro allI impI)
    fix k c x assume h: "(k, Some c) \<in> set (children s) \<and> reach h0 c x"
    then have "map_of (children s) k = Some (Some c)" using ds by simp
    then have "reach h0 a x" using h s reach_unfold[of h0 a x] by blast
    then show "cell h x = cell h0 x" using Suc.prems(4) by simp
  qed
  from delete_children_subtrees[OF tree kd Suc.IH Suc.prems(1) s Suc.prems(2) subset_refl ds
      Suc.prems(3) ag]
  obtain h1 where d1: "delete_children fuel (children s) h = Inr h1" and f1: "freed ?S h h1"
    by blast
  have "a \<notin> ?S"
  proof
    assume "a \<in> ?S"
    then obtain k c where kc: "(k, Some c) \<in> set (children s)" "reach h0 c a" by blast
    then have "map_of (children s) k = Some (Some c)" using ds by simp
    from tree_at_acyclic[OF tree Suc.prems(1) s this kc(2)] show False by simp
  qed
  then have a1: "cell h1 a = Some s" using f1 sh by (simp add: freed_def)
  have del: "delete_section (Suc fuel) (Some a) h = Inr (h1[a := None])"
    using sh d1 a1 by (simp add: deref_cell)
  have eq: "{x. reach h0 a x} = insert a ?S"
  proof (rule set_eqI)
    fix x
    have "(\<exists>s' k c. cell h0 a = Some s' \<and> map_of (children s') k = Some (Some c) \<and> reach h0 c x)
          \<longleftrightarrow> (\<exists>k c. (k, Some c) \<in> set (children s) \<and> reach h0 c x)"
      using s ds by auto
    then show "x \<in> {x. reach h0 a x} \<longleftrightarrow> x \<in> insert a ?S"
      using reach_unfold[of h0 a x] by auto
  qed
  have "a < length h1" using a1 by (rule cell_Some_less)
  then have "freed (insert a ?S) h (h1[a := None])"
    using f1 by (auto simp: freed_def cell_update)
  then show ?case using del eq by auto
qed

lemma trees_disjoint:
  assumes t1: "tree_at h r1" and t2: "tree_at h r2" and ne: "r1 \<noteq> r2"
    and d: "descend h r1 ks = Some x"
  shows "\<not> reach h r2 x"
  using d
proof (induction ks arbitrary: x rule: rev_induct)
  case Nil
  then have x: "x = r1" by simp
  show ?case
  proof
    assume "reach h r2 x"
    then obtain q where q: "descend h r2 q = Some r1" using reach_descend x by blast
    show False
    proof (cases q rule: rev_cases)
      case Nil
      then show ?thesis using q ne by simp
    next
      case (snoc q' k)
      from q[unfolded snoc descend_snoc] obtain b s where b: "descend h r2 q' = Some b"
        "cell h b = Some s" "map_of (children s) k = Some (Some r1)" by blast
      from tree_at_child_fields[OF t2 descend_reach[OF b(1)] b(2,3)]
      show ?thesis using t1 by (auto simp: tree_at_def)
    qed
  qed
next
  case (snoc k ks)
  note prem = snoc.prems and IH = snoc.IH
  from prem[unfolded descend_snoc] obtain b1 s1 where b1: "descend h r1 ks = Some b1"
    "cell h b1 = Some s1" "map_of (children s1) k = Some (Some x)" by blast
  from tree_at_child_fields[OF t1 descend_reach[OF b1(1)] b1(2,3)]
  obtain t where t: "cell h x = Some t" "parent t = Some b1" by blast
  show ?case
  proof
    assume "reach h r2 x"
    then obtain q where q: "descend h r2 q = Some x" using reach_descend by blast
    show False
    proof (cases q rule: rev_cases)
      case Nil
      then have "x = r2" using q by simp
      then show ?thesis using t t2 by (auto simp: tree_at_def)
    next
      case (snoc q' k')
      from q[unfolded snoc descend_snoc] obtain b2 s2 where b2: "descend h r2 q' = Some b2"
        "cell h b2 = Some s2" "map_of (children s2) k' = Some (Some x)" by blast
      from tree_at_child_fields[OF t2 descend_reach[OF b2(1)] b2(2,3)] t
      have "b2 = b1" by auto
      then have "reach h r2 b1" using descend_reach[OF b2(1)] by simp
      then show ?thesis using IH[OF b1(1)] by simp
    qed
  qed
qed

lemma delete_contexts_trees:
  assumes kd: "keys_distinct h0"
  shows "\<forall>c \<in> set cs. context_ok h0 c \<Longrightarrow> distinct (map toplevel cs) \<Longrightarrow> length h = length h0 \<Longrightarrow>
         (\<forall>c r x. c \<in> set cs \<and> toplevel c = Some r \<and> reach h0 r x \<longrightarrow> cell h x = cell h0 x) \<Longrightarrow>
         \<exists>h'. delete_contexts (length h0) cs h = Inr h' \<and>
              freed {x. \<exists>c r. c \<in> set cs \<and> toplevel c = Some r \<and> reach h0 r x} h h'"
proof (induction cs arbitrary: h)
  case Nil
  then show ?case by (simp add: freed_refl)
next
  case (Cons c cs)
  from Cons.prems(1) obtain r where r: "toplevel c = Some r" and tree: "tree_at h0 r"
    by (auto simp: context_ok_def)
  have H: "\<forall>ks x. descend h0 r ks = Some x \<longrightarrow> length ks < length h0"
    using tree_at_depth[OF tree] by blast
  have ag: "\<forall>x. reach h0 r x \<longrightarrow> cell h x = cell h0 x" using Cons.prems(4) r by auto
  from delete_section_subtree[OF tree kd reach_root H Cons.prems(3) ag] obtain h1 where
    d1: "delete_section (length h0) (Some r) h = Inr h1" and f1: "freed {x. reach h0 r x} h h1"
    by blast
  have l1: "length h1 = length h0" using f1 Cons.prems(3) by (simp add: freed_def)
  have ag1: "\<forall>c' r' x. c' \<in> set cs \<and> toplevel c' = Some r' \<and> reach h0 r' x \<longrightarrow> cell h1 x = cell h0 x"
  proof (intro allI impI)
    fix c' r' x assume h: "c' \<in> set cs \<and> toplevel c' = Some r' \<and> reach h0 r' x"
    then have "toplevel c' \<noteq> toplevel c" using Cons.prems(2) by force
    then have ne: "r' \<noteq> r" using h r by auto
    have t': "tree_at h0 r'" using Cons.prems(1) h by (auto simp: context_ok_def)
    from h obtain ks where "descend h0 r' ks = Some x" using reach_descend by blast
    from trees_disjoint[OF t' tree ne this] have "\<not> reach h0 r x" .
    then have "cell h1 x = cell h x" using f1 by (simp add: freed_def)
    then show "cell h1 x = cell h0 x" using Cons.prems(4) h by auto
  qed
  from Cons.IH[OF _ _ l1 ag1] Cons.prems(1,2) obtain h2 where
    d2: "delete_contexts (length h0) cs h1 = Inr h2"
    and f2: "freed {x. \<exists>c r. c \<in> set cs \<and> toplevel c = Some r \<and> reach h0 r x} h1 h2" by auto
  have "{x. \<exists>c' r'. c' \<in> set (c # cs) \<and> toplevel c' = Some r' \<and> reach h0 r' x} =
        {x. reach h0 r x} \<union> {x. \<exists>c r. c \<in> set cs \<and> toplevel c = Some r \<and> reach h0 r x}"
    using r by auto
  then have "freed {x. \<exists>c' r'. c' \<in> set (c # cs) \<and> toplevel c' = Some r' \<and> reach h0 r' x} h h2"
    using freed_trans[OF f1 f2] by simp
  moreover have "delete_contexts (length h0) (c # cs) h = Inr h2" using d1 d2 r by simp
  ultimately show ?case by blast
qed

text \<open>In a state that satisfies the invariants, clear returns and releases the trees.\<close>

lemma keys_ascending_distinct: "keys_ascending h \<Longrightarrow> keys_distinct h"
  unfolding keys_ascending_def keys_distinct_def using strict_sorted_iff by blast

lemma Clear_returns:
  assumes "state_inv st"
  shows "\<exists>st'. Clear st = Inr st' \<and> contexts st' = [] \<and>
     freed {x. \<exists>c r. c \<in> set (contexts st) \<and> toplevel c = Some r \<and> reach (heap st) r x}
       (heap st) (heap st')"
proof -
  have kd: "keys_distinct (heap st)" and ok: "\<forall>c \<in> set (contexts st). context_ok (heap st) c"
    and di: "distinct (map toplevel (contexts st))"
    using assms keys_ascending_distinct by (auto simp: state_inv_def tree_inv_def)
  from delete_contexts_trees[OF kd ok di refl] obtain h' where
    "delete_contexts (length (heap st)) (contexts st) (heap st) = Inr h'"
    "freed {x. \<exists>c r. c \<in> set (contexts st) \<and> toplevel c = Some r \<and> reach (heap st) r x} (heap st) h'"
    by blast
  then show ?thesis by (simp add: Clear_def)
qed

subsection \<open>The invariants of reachable states\<close>

lemma keys_map_assign: "fst ` set (map_assign k v m) = insert k (fst ` set m)"
proof -
  have "dom (map_of (map_assign k v m)) = insert k (dom (map_of m))"
    by (simp add: map_of_map_assign)
  then show ?thesis by (simp add: dom_map_of_conv_image_fst)
qed

lemma sorted_map_assign:
  "sorted_wrt (<) (map fst m) \<Longrightarrow> sorted_wrt (<) (map fst (map_assign k v m))"
proof (induction m)
  case Nil
  then show ?case by simp
next
  case (Cons e m)
  obtain k' v' where e: "e = (k', v')" by (cases e)
  have "\<forall>x \<in> fst ` set (map_assign k v m). k' < x" if "\<not> k < k'" "k \<noteq> k'"
    using that Cons.prems e by (auto simp: keys_map_assign)
  then show ?case using Cons e by (auto simp: image_iff) 
qed

lemma cells_ok_append:
  assumes "keys_ascending h" and "counts_ok h" and "sorted_wrt (<) (map fst (children x))"
    and "0 \<le> call_count x"
  shows "keys_ascending (h @ [Some x])" and "counts_ok (h @ [Some x])"
  using assms by (auto simp: keys_ascending_def counts_ok_def cell_append split: if_splits)

lemma cells_ok_update:
  assumes "keys_ascending h" and "counts_ok h" and "sorted_wrt (<) (map fst (children x))"
    and "0 \<le> call_count x"
  shows "keys_ascending (h[a := Some x])" and "counts_ok (h[a := Some x])"
  using assms by (auto simp: keys_ascending_def counts_ok_def cell_update split: if_splits)

lemma toplevel_update_current:
  "map toplevel (cs[i := (cs ! i)\<lparr>current := p\<rparr>]) = map toplevel cs"
  by (cases "i < length cs") (auto simp: list_eq_iff_nth_eq nth_list_update)

lemma state_inv_fresh: "state_inv (fresh clk)"
proof -
  have "heap (fresh clk) = []" "contexts (fresh clk) = []" by (simp_all add: fresh_def)
  then show ?thesis
    using tree_inv_fresh[of clk] by (simp add: state_inv_def keys_ascending_def counts_ok_def cell_def)
qed

lemma GetContext_state_inv:
  assumes inv: "state_inv st" and g: "GetContext t st = Inr (i, st1)"
  shows "state_inv st1"
proof (cases "find_context t (contexts st)")
  case None
  have ti: "tree_inv st" using inv by (simp add: state_inv_def)
  have lt: "EXEC_ORDER_ID st < INT_MAX" using GetContext_new_overflow[OF None] g by fastforce
  note e = GetContext_new[OF None lt]
  have st1: "heap st1 = heap st @ [Some (constructed (EXEC_ORDER_ID st))]"
    "contexts st1 = contexts st @ [\<lparr>thread_context = t, toplevel = Some (length (heap st)),
                  current = Some (length (heap st))\<rparr>]"
    using e g by auto
  have "Some (length (heap st)) \<notin> set (map toplevel (contexts st))"
  proof
    assume "Some (length (heap st)) \<in> set (map toplevel (contexts st))"
    then obtain c where c: "c \<in> set (contexts st)" "toplevel c = Some (length (heap st))" by auto
    then have "tree_at (heap st) (length (heap st))" using ti by (auto simp: tree_inv_def context_ok_def)
    then show False using tree_at_less[OF _ reach_root] by blast
  qed
  then have "distinct (map toplevel (contexts st1))" using inv by (simp add: st1 state_inv_def)
  moreover have "keys_ascending (heap st1)" "counts_ok (heap st1)"
    unfolding st1 using inv by (auto intro!: cells_ok_append simp: state_inv_def constructed_def)
  ultimately show ?thesis using GetContext_tree_inv[OF ti g] by (simp add: state_inv_def)
next
  case (Some j)
  then show ?thesis using assms by (simp add: GetContext_found)
qed

lemma SectionPush_state_inv:
  assumes inv: "state_inv st" and res: "SectionPush t nm st = Inr st'"
  shows "state_inv st'"
  using res
proof (cases rule: SectionPush_unfold)
  case (1 i st1 cur a st2 sa)
  have ti: "tree_inv st'" using inv res SectionPush_tree_inv by (auto simp: state_inv_def)
  have inv1: "state_inv st1" using inv 1(1) by (rule GetContext_state_inv)
  then have ti1: "tree_inv st1" by (simp add: state_inv_def)
  have i: "i < length (contexts st1)" using GetContext_less[OF 1(1)] by simp
  have c2: "contexts st2 = contexts st1" using 1(3) by (rule get_child_contexts)
  have k2: "keys_ascending (heap st2) \<and> counts_ok (heap st2)"
    using tree_inv_nth[OF ti1 i] 1(2,3)
  proof (cases rule: get_child_cases)
    case (found cs)
    then show ?thesis using inv1 by (simp add: state_inv_def)
  next
    case (created cs)
    have d: "sorted_wrt (<) (map fst (children cs))" "0 \<le> call_count cs"
      using inv1 created(1) by (auto simp: state_inv_def keys_ascending_def counts_ok_def)
    let ?h = "(heap st1)[cur := Some (cs\<lparr>children := map_assign nm (Some (length (heap st1))) (children cs)\<rparr>)]"
    have "keys_ascending ?h" "counts_ok ?h"
      using inv1 d by (auto intro!: cells_ok_update sorted_map_assign simp: state_inv_def)
    then have "keys_ascending (?h @ [Some ((constructed (EXEC_ORDER_ID st1))\<lparr>parent := Some cur, name := nm\<rparr>)])"
      "counts_ok (?h @ [Some ((constructed (EXEC_ORDER_ID st1))\<lparr>parent := Some cur, name := nm\<rparr>)])"
      by (auto intro!: cells_ok_append simp: constructed_def)
    then show ?thesis by (simp add: created(5))
  qed
  have sa: "sorted_wrt (<) (map fst (children sa))" "0 \<le> call_count sa"
    using k2 1(4) by (auto simp: keys_ascending_def counts_ok_def)
  have "keys_ascending (heap st')" "counts_ok (heap st')"
    using k2 sa by (auto intro!: cells_ok_update simp: 1(5))
  moreover have "distinct (map toplevel (contexts st'))"
    using inv1 by (simp add: 1(5) c2 toplevel_update_current state_inv_def)
  ultimately show ?thesis using ti by (simp add: state_inv_def)
qed

lemma SectionPop_state_inv:
  assumes inv: "state_inv st" and res: "SectionPop t st = Inr st'"
  shows "state_inv st'"
  using res
proof (cases rule: SectionPop_unfold)
  case (1 i st2 a sec)
  have ti: "tree_inv st'" using inv res SectionPop_tree_inv by (auto simp: state_inv_def)
  have "state_inv (st\<lparr>ticks := Suc (ticks st), end_time := clock st (ticks st)\<rparr>)"
    using inv by (simp add: state_inv_def tree_inv_def)
  then have inv2: "state_inv st2" using 1(1) by (rule GetContext_state_inv)
  show ?thesis
  proof (cases "parent sec")
    case None
    then show ?thesis using 1(4) inv2 by simp
  next
    case (Some p)
    with 1(4) obtain sec' where rec: "record_time (end_time st2 - timer sec) sec = Inr sec'"
      and st': "st' = set_current i (Some p) (st2\<lparr>heap := (heap st2)[a := Some sec']\<rparr>)"
      by auto
    have "sorted_wrt (<) (map fst (children sec))" "0 \<le> call_count sec"
      using inv2 1(3) by (auto simp: state_inv_def keys_ascending_def counts_ok_def)
    then have "sorted_wrt (<) (map fst (children sec'))" "0 \<le> call_count sec'"
      using rec by (auto simp: record_time_Inr)
    then have "keys_ascending (heap st')" "counts_ok (heap st')"
      using inv2 by (auto intro!: cells_ok_update simp: st' state_inv_def)
    moreover have "distinct (map toplevel (contexts st'))"
      using inv2 by (simp add: st' toplevel_update_current state_inv_def)
    ultimately show ?thesis using ti by (simp add: state_inv_def)
  qed
qed

lemma Clear_state_inv:
  assumes inv: "state_inv st" and res: "Clear st = Inr st'"
  shows "state_inv st'"
proof -
  from Clear_returns[OF inv] res obtain S where c: "contexts st' = []"
    and f: "freed S (heap st) (heap st')" by auto
  have "keys_ascending (heap st')" "counts_ok (heap st')"
    using inv f
    by (auto simp: state_inv_def keys_ascending_def counts_ok_def freed_def split: if_splits)
  then show ?thesis using c by (simp add: state_inv_def tree_inv_def)
qed

lemma step_state_inv: "state_inv st \<Longrightarrow> step c st = Inr st' \<Longrightarrow> state_inv st'"
  by (cases c) (auto intro: SectionPush_state_inv SectionPop_state_inv Clear_state_inv)

lemma run_state_inv: "state_inv st \<Longrightarrow> run cs st = Inr st' \<Longrightarrow> state_inv st'"
  by (induction cs arbitrary: st) (auto simp: bind_res_Inr dest: step_state_inv)

subsection \<open>The operations return\<close>

lemma GetContext_returns:
  assumes "find_context t (contexts st) = None \<longrightarrow> EXEC_ORDER_ID st < INT_MAX"
  shows "\<exists>i st1. GetContext t st = Inr (i, st1) \<and> EXEC_ORDER_ID st1 \<le> EXEC_ORDER_ID st + 1"
proof (cases "find_context t (contexts st)")
  case None
  then show ?thesis using GetContext_new[OF None] assms by simp
next
  case (Some j)
  then show ?thesis by (simp add: GetContext_found)
qed

lemma SectionPush_returns:
  assumes inv: "tree_inv st" and lim: "EXEC_ORDER_ID st + 2 \<le> INT_MAX"
  shows "\<exists>st'. SectionPush t nm st = Inr st'"
proof -
  from GetContext_returns[of t st] lim obtain i st1 where
    g: "GetContext t st = Inr (i, st1)" and e1: "EXEC_ORDER_ID st1 \<le> EXEC_ORDER_ID st + 1"
    by fastforce
  have inv1: "tree_inv st1" using inv g by (rule GetContext_tree_inv)
  have i: "i < length (contexts st1)" using GetContext_less[OF g] by simp
  from tree_inv_nth[OF inv1 i] obtain r cur cs where c:
    "toplevel (contexts st1 ! i) = Some r" "current (contexts st1 ! i) = Some cur"
    "cell (heap st1) cur = Some cs"
    by (rule context_ok_current_cell)
  have "\<exists>a st2. get_or_create_child cur nm st1 = Inr (a, st2)"
  proof (cases "map_of (children cs) nm")
    case None
    have "EXEC_ORDER_ID st1 < INT_MAX" using e1 lim by simp
    from get_child_created[OF c(3) None this] show ?thesis by blast
  next
    case (Some p)
    with context_ok_no_null_entry[OF tree_inv_nth[OF inv1 i] c(2,3), of nm]
    obtain a where "map_of (children cs) nm = Some (Some a)" by (cases p) auto
    from get_child_found[OF c(3) this] show ?thesis by blast
  qed
  then obtain a st2 where gc: "get_or_create_child cur nm st1 = Inr (a, st2)" by blast
  from get_child_tree_inv(4)[OF inv1 i c(2) c(1) gc] obtain sa where
    sa: "cell (heap st2) a = Some sa" by blast
  show ?thesis
    using g c(2) gc sa by (simp add: SectionPush_def SetNow_def modify_cell)
qed

lemma SectionPop_returns:
  assumes inv: "state_inv st"
    and lim: "find_context t (contexts st) = None \<longrightarrow> EXEC_ORDER_ID st < INT_MAX"
    and cnt: "\<forall>a s. cell (heap st) a = Some s \<longrightarrow> call_count s < INT_MAX"
  shows "\<exists>st'. SectionPop t st = Inr st'"
proof -
  let ?st = "st\<lparr>ticks := Suc (ticks st), end_time := clock st (ticks st)\<rparr>"
  have inv0: "state_inv ?st" using inv by (simp add: state_inv_def tree_inv_def)
  from GetContext_returns[of t ?st] lim obtain i st2 where
    g: "GetContext t ?st = Inr (i, st2)" by fastforce
  have inv2: "state_inv st2" using inv0 g by (rule GetContext_state_inv)
  then have ti2: "tree_inv st2" by (simp add: state_inv_def)
  have i: "i < length (contexts st2)" using GetContext_less[OF g] by simp
  from tree_inv_nth[OF ti2 i] obtain r a sec where c:
    "toplevel (contexts st2 ! i) = Some r" "current (contexts st2 ! i) = Some a"
    "cell (heap st2) a = Some sec"
    by (rule context_ok_current_cell)
  have nn: "0 \<le> call_count sec" using inv2 c(3) by (auto simp: state_inv_def counts_ok_def)
  have "call_count sec < INT_MAX"
  proof (cases "find_context t (contexts st)")
    case None
    have lt: "EXEC_ORDER_ID ?st < INT_MAX" using lim None by simp
    from GetContext_new[of t ?st, OF _ lt] None g c(2,3)
    have "sec = constructed (EXEC_ORDER_ID st)" by (auto simp: cell_append)
    then show ?thesis by (simp add: constructed_def INT_MAX_def)
  next
    case (Some j)
    then have "st2 = ?st" using g by (simp add: GetContext_found)
    then show ?thesis using cnt c(3) by simp
  qed
  then obtain sec' where rec: "record_time (end_time st2 - timer sec) sec = Inr sec'"
    using nn by (auto simp: record_time_Inr)
  show ?thesis
    using g c(2,3) rec
    by (cases "parent sec") (simp_all add: SectionPop_def SetNow_def deref_cell modify_cell)
qed

lemma SectionPush_alloc:
  assumes inv: "tree_inv st" and res: "SectionPush t nm st = Inr st'" and x: "x < length (heap st)"
  shows "(cell (heap st') x = None) = (cell (heap st) x = None)"
  using res
proof (cases rule: SectionPush_unfold)
  case (1 i st1 cur a st2 sa)
  have inv1: "tree_inv st1" using inv 1(1) by (rule GetContext_tree_inv)
  have i: "i < length (contexts st1)" using GetContext_less[OF 1(1)] by simp
  have h1: "cell (heap st1) x = cell (heap st) x \<and> x < length (heap st1)"
    using 1(1) x
    by (cases "find_context t (contexts st)")
      (auto simp: GetContext_def new_DProfileSection_def Let_def cell_append split: if_splits)
  have h2: "(cell (heap st2) x = None) = (cell (heap st1) x = None)"
    using tree_inv_nth[OF inv1 i] 1(2,3)
  proof (cases rule: get_child_cases)
    case (found cs)
    then show ?thesis by simp
  next
    case (created cs)
    then show ?thesis using h1 cell_Some_less[OF created(1)]
      by (auto simp: cell_append cell_update)
  qed
  have "(cell (heap st') x = None) = (cell (heap st2) x = None)"
    using 1(4) cell_Some_less[OF 1(4)] by (auto simp: 1(5) cell_update)
  then show ?thesis using h1 h2 by simp
qed

lemma push_pop_returns:
  assumes inv: "state_inv st" and lim: "EXEC_ORDER_ID st + 2 \<le> INT_MAX"
    and cnt: "\<forall>a s. cell (heap st) a = Some s \<longrightarrow> call_count s < INT_MAX"
  shows "\<exists>st1 st2. SectionPush t nm st = Inr st1 \<and> SectionPop t st1 = Inr st2"
proof -
  have ti: "tree_inv st" using inv by (simp add: state_inv_def)
  from SectionPush_returns[OF ti lim] obtain st1 where p: "SectionPush t nm st = Inr st1" by blast
  have inv1: "state_inv st1" using inv p by (rule SectionPush_state_inv)
  from GetContext_returns[of t st] lim obtain i st0 where g: "GetContext t st = Inr (i, st0)"
    by fastforce
  from ti g p obtain cur a sa cs where f: "find_context t (contexts st1) = Some i"
    by (rule SectionPush_current)
  have cnt1: "\<forall>a s. cell (heap st1) a = Some s \<longrightarrow> call_count s < INT_MAX"
  proof (intro allI impI)
    fix x s assume x: "cell (heap st1) x = Some s"
    have al: "cell (heap st) x = None \<longrightarrow> length (heap st) \<le> x"
      using SectionPush_alloc[OF ti p, of x] x by fastforce
    show "call_count s < INT_MAX"
      using SectionPush_totals(1)[OF ti p al] x cnt
      by (cases "cell (heap st) x") (auto simp: totals_def INT_MAX_def)
  qed
  from SectionPop_returns[OF inv1 _ cnt1, of t] f obtain st2 where "SectionPop t st1 = Inr st2"
    by auto
  with p show ?thesis by blast
qed

subsection \<open>The display returns\<close>

lemma load_all_returns:
  "\<forall>p \<in> set ps. \<exists>c sc. p = Some c \<and> cell h c = Some sc \<Longrightarrow> \<exists>w. load_all h ps = Inr w"
proof (induction ps)
  case Nil
  then show ?case by simp
next
  case (Cons p ps)
  then obtain c sc w where "p = Some c" "cell h c = Some sc" "load_all h ps = Inr w" by auto
  then show ?case by (simp add: deref_cell)
qed

lemma Display_loop_returns:
  "\<forall>(c, sect) \<in> set v. \<forall>prefix. \<exists>rows. DProfileSection_Display srt fuel h c prefix sort_by = Inr rows
   \<Longrightarrow> \<exists>rows. Display_loop srt fuel h prefix sort_by v = Inr rows"
proof (induction v)
  case Nil
  then show ?case by simp
next
  case (Cons x v)
  obtain c sect where x: "x = (c, sect)" by (cases x)
  from Cons.prems x obtain below where
    "DProfileSection_Display srt fuel h c (next_prefix prefix (v = []) @ ''| '') sort_by = Inr below"
    by fastforce
  moreover from Cons obtain after where "Display_loop srt fuel h prefix sort_by v = Inr after"
    by auto
  ultimately show ?case using x by simp
qed

lemma Display_section_returns:
  assumes tree: "tree_at h r" and kd: "keys_distinct h" and srt: "std_sort srt"
  shows "reach h r a \<Longrightarrow> (\<forall>ks x. descend h a ks = Some x \<longrightarrow> length ks < fuel) \<Longrightarrow>
         \<exists>rows. DProfileSection_Display srt fuel h a prefix sort_by = Inr rows"
proof (induction fuel arbitrary: a prefix)
  case 0
  have "descend h a [] = Some a" by simp
  then show ?case using "0.prems"(2) by blast
next
  case (Suc fuel)
  obtain s where s: "cell h a = Some s" using tree_at_allocated[OF tree Suc.prems(1)] by blast
  have ds: "distinct (map fst (children s))" using kd s by (auto simp: keys_distinct_def)
  have nok: "node_ok h r a" using tree Suc.prems(1) by (simp add: tree_at_def)
  have ch: "\<exists>k c sc. p = Some c \<and> cell h c = Some sc \<and> map_of (children s) k = Some (Some c)"
    if "p \<in> set (map snd (children s))" for p
  proof -
    from that obtain k where "(k, p) \<in> set (children s)" by auto
    then have m: "map_of (children s) k = Some p" using ds by simp
    then show ?thesis using nok s unfolding node_ok_def by fastforce
  qed
  then have "\<forall>p \<in> set (map snd (children s)). \<exists>c sc. p = Some c \<and> cell h c = Some sc" by blast
  from load_all_returns[OF this] obtain w where w: "load_all h (map snd (children s)) = Inr w"
    by blast
  then obtain v where v: "children_vect srt h s sort_by = Inr v"
    by (simp add: children_vect_def)
  have "\<exists>rows. DProfileSection_Display srt fuel h c pre sort_by = Inr rows"
    if "(c, sect) \<in> set v" for c sect pre
  proof -
    have "Some c \<in> set (map (Some \<circ> fst) v)" using that by force
    then have "Some c \<in># mset (map (Some \<circ> fst) v)" by simp
    then have "Some c \<in> set (map snd (children s))"
      unfolding children_vect_sorted(1)[OF srt v] by simp
    from ch[OF this] obtain k where k: "map_of (children s) k = Some (Some c)" by auto
    have rc: "reach h r c" using Suc.prems(1) s k by (rule reach_child)
    have "\<forall>ks x. descend h c ks = Some x \<longrightarrow> length ks < fuel"
    proof (intro allI impI)
      fix ks x assume "descend h c ks = Some x"
      then have "descend h a (k # ks) = Some x" using s k by simp
      then show "length ks < fuel" using Suc.prems(2) by fastforce
    qed
    from Suc.IH[OF rc this] show ?thesis .
  qed
  then have "\<forall>(c, sect) \<in> set v. \<forall>prefix. \<exists>rows.
      DProfileSection_Display srt fuel h c prefix sort_by = Inr rows" by blast
  from Display_loop_returns[OF this] obtain rows where
    "Display_loop srt fuel h prefix sort_by v = Inr rows" by blast
  then show ?case using s v by (simp add: deref_cell)
qed

lemma Display_contexts_returns:
  assumes kd: "keys_distinct h" and srt: "std_sort srt"
  shows "\<forall>c \<in> set cs. context_ok h c \<Longrightarrow> \<exists>ls. Display_contexts srt h sort_by cs = Inr ls"
proof (induction cs)
  case Nil
  then show ?case by simp
next
  case (Cons c cs)
  then obtain r where r: "toplevel c = Some r" and tree: "tree_at h r"
    by (auto simp: context_ok_def)
  have "\<forall>ks x. descend h r ks = Some x \<longrightarrow> length ks < length h"
    using tree_at_depth[OF tree] by blast
  from Display_section_returns[OF tree kd srt reach_root this]
  obtain rows where "DProfileSection_Display srt (length h) h r ''| '' sort_by = Inr rows" by blast
  moreover from Cons obtain ls where "Display_contexts srt h sort_by cs = Inr ls" by auto
  ultimately show ?case using r by simp
qed

lemma Display_returns:
  assumes "state_inv st" and "std_sort srt"
  shows "\<exists>ls. Display srt sort_by st = Inr ls"
proof -
  have "keys_distinct (heap st)" "\<forall>c \<in> set (contexts st). context_ok (heap st) c"
    using assms(1) keys_ascending_distinct by (auto simp: state_inv_def tree_inv_def)
  from Display_contexts_returns[OF this(1) assms(2) this(2), of sort_by] obtain ls where
    "Display_contexts srt (heap st) sort_by (contexts st) = Inr ls" by blast
  then show ?thesis by (simp add: Display_def)
qed

subsection \<open>A pop in its two parts\<close>

text \<open>A pop is its second part run after its first.\<close>

lemma SectionPop_split: "SectionPop t st = SectionPop_rest t (SectionPop_sample st)"
  by (simp add: SectionPop_def SectionPop_rest_def SectionPop_sample_def Let_def case_prod_beta)

lemma pop_in_two_parts: "run_events [PopSample t, PopRest t] st = step (Pop t) st"
  by (simp add: SectionPop_split bind_res_def split: sum.splits)

lemma run_events_Whole: "run_events (map Whole cs) st = run cs st"
  by (induction cs arbitrary: st) (auto simp: bind_res_def split: sum.splits)

text \<open>
  Two threads, each with one section, and the clock 0, 1, 10, 50: the pops one after the
  other, and the pops with their first parts before their second parts.
\<close>

lemma race_atomic_run:
  "run [Push 0 ''A'', Push 1 ''B'', Pop 0, Pop 1] (fresh (mock_clock [0, 1, 10, 50])) =
   Inr \<lparr>contexts = [\<lparr>thread_context = 0, toplevel = Some 0, current = Some 0\<rparr>,
                    \<lparr>thread_context = 1, toplevel = Some 2, current = Some 2\<rparr>],
        EXEC_ORDER_ID = 4, end_time = 50,
        heap =
          [Some \<lparr>call_count = 0, avg_time = 0, exec_order_id = 0, timer = 0,
               parent = None, name = [], children = [(''A'', Some 1)]\<rparr>,
           Some \<lparr>call_count = 1, avg_time = 10, exec_order_id = 1, timer = 0,
               parent = Some 0, name = ''A'', children = []\<rparr>,
           Some \<lparr>call_count = 0, avg_time = 0, exec_order_id = 2, timer = 0,
               parent = None, name = [], children = [(''B'', Some 3)]\<rparr>,
           Some \<lparr>call_count = 1, avg_time = 49, exec_order_id = 3, timer = 1,
               parent = Some 2, name = ''B'', children = []\<rparr>],
        clock = mock_clock [0, 1, 10, 50], ticks = 4\<rparr>"
  by (simp add: eval_defs numeral_2_eq_2 numeral_3_eq_3)

lemma race_interleaved_run:
  "run_events [Whole (Push 0 ''A''), Whole (Push 1 ''B''),
               PopSample 0, PopSample 1, PopRest 0, PopRest 1]
     (fresh (mock_clock [0, 1, 10, 50])) =
   Inr \<lparr>contexts = [\<lparr>thread_context = 0, toplevel = Some 0, current = Some 0\<rparr>,
                    \<lparr>thread_context = 1, toplevel = Some 2, current = Some 2\<rparr>],
        EXEC_ORDER_ID = 4, end_time = 50,
        heap =
          [Some \<lparr>call_count = 0, avg_time = 0, exec_order_id = 0, timer = 0,
               parent = None, name = [], children = [(''A'', Some 1)]\<rparr>,
           Some \<lparr>call_count = 1, avg_time = 50, exec_order_id = 1, timer = 0,
               parent = Some 0, name = ''A'', children = []\<rparr>,
           Some \<lparr>call_count = 0, avg_time = 0, exec_order_id = 2, timer = 0,
               parent = None, name = [], children = [(''B'', Some 3)]\<rparr>,
           Some \<lparr>call_count = 1, avg_time = 49, exec_order_id = 3, timer = 1,
               parent = Some 2, name = ''B'', children = []\<rparr>],
        clock = mock_clock [0, 1, 10, 50], ticks = 4\<rparr>"
  by (simp add: eval_defs SectionPop_sample_def SectionPop_rest_def numeral_2_eq_2 numeral_3_eq_3)

text \<open>
  What a pop that runs as a whole changes: from the state \<open>st2\<close> after the write of the
  stop sample and the lookup of the context, at most the call count and the average of
  the current section of that context and the \<^verbatim>\<open>current\<close> pointer of that context.
\<close>

lemma SectionPop_frame:
  assumes "SectionPop t st = Inr st'"
  shows "\<exists>i st2 a s c v p.
     GetContext t (st\<lparr>ticks := Suc (ticks st), end_time := clock st (ticks st)\<rparr>) = Inr (i, st2) \<and>
     end_time st2 = clock st (ticks st) \<and>
     current (contexts st2 ! i) = Some a \<and>
     cell (heap st2) a = Some s \<and>
     st' = st2\<lparr>heap := (heap st2)[a := Some (s\<lparr>call_count := c, avg_time := v\<rparr>)],
              contexts := (contexts st2)[i := (contexts st2 ! i)\<lparr>current := p\<rparr>]\<rparr>"
  using assms
proof (cases rule: SectionPop_unfold)
  case (1 i st2 a sec)
  have e: "end_time st2 = clock st (ticks st)" using GetContext_frame(1)[OF 1(1)] by simp
  show ?thesis
  proof (cases "parent sec")
    case None
    then have st': "st' = st2" using 1(4) by simp
    have "(contexts st2 ! i)\<lparr>current := Some a\<rparr> = contexts st2 ! i" using 1(2) by simp
    then have "st' = st2\<lparr>heap := (heap st2)[a := Some (sec\<lparr>call_count := call_count sec, avg_time := avg_time sec\<rparr>)],
              contexts := (contexts st2)[i := (contexts st2 ! i)\<lparr>current := Some a\<rparr>]\<rparr>"
      using st' list_update_same_cell[OF 1(3)] by simp
    then show ?thesis using 1(1,2,3) e by blast
  next
    case (Some p)
    with 1(4) obtain sec' where rec: "record_time (end_time st2 - timer sec) sec = Inr sec'"
      and st': "st' = set_current i (Some p) (st2\<lparr>heap := (heap st2)[a := Some sec']\<rparr>)"
      by auto
    have "sec' = sec\<lparr>call_count := call_count sec', avg_time := avg_time sec'\<rparr>"
      using rec by (auto simp: record_time_Inr)
    then have "st' = st2\<lparr>heap := (heap st2)[a := Some (sec\<lparr>call_count := call_count sec', avg_time := avg_time sec'\<rparr>)],
              contexts := (contexts st2)[i := (contexts st2 ! i)\<lparr>current := Some p\<rparr>]\<rparr>"
      unfolding st' by (simp add: set_current_def)
    then show ?thesis using 1(1,2,3) e by blast
  qed
qed

lemma SectionPop_frame_example:
  "\<exists>i st2 a s c v p.
     GetContext 0 (ex_pushed\<lparr>ticks := Suc (ticks ex_pushed),
                             end_time := clock ex_pushed (ticks ex_pushed)\<rparr>) = Inr (i, st2) \<and>
     end_time st2 = clock ex_pushed (ticks ex_pushed) \<and>
     current (contexts st2 ! i) = Some a \<and>
     cell (heap st2) a = Some s \<and>
     ex_popped = st2\<lparr>heap := (heap st2)[a := Some (s\<lparr>call_count := c, avg_time := v\<rparr>)],
              contexts := (contexts st2)[i := (contexts st2 ! i)\<lparr>current := p\<rparr>]\<rparr>"
  by (rule SectionPop_frame[OF ex_steps(3)])
section \<open>The claims\<close>

text \<open>
  C1, as stated: with the mock clock 0, 1, 3, 4, 10 the trace push("outer"); push("inner");
  pop(); pop() leaves "outer" with call count 1 and average 10, and its child "inner"
  with call count 1 and average 2. This fails: the four operations take one sample each,
  so the second pop reads the sample 4 and the average of "outer" is 4 - 0.
\<close>

theorem nested_sections_counterexample:
  "\<not> (stats_at (run [Push 0 ''outer'', Push 0 ''inner'', Pop 0, Pop 0]
                   (fresh (mock_clock [0, 1, 3, 4, 10]))) 0 [''outer''] = Some (1, 10) \<and>
      stats_at (run [Push 0 ''outer'', Push 0 ''inner'', Pop 0, Pop 0]
                   (fresh (mock_clock [0, 1, 3, 4, 10]))) 0 [''outer'', ''inner''] = Some (1, 2))"
  unfolding nested_run by (simp add: stats_at_def section_at_def cell_def)

text \<open>
  C1, amended: the trace leaves "outer" with call count 1 and average 4, and its child
  "inner" with call count 1 and average 2; four samples of the clock are taken, and the
  sample 10 is never read.
\<close>

theorem nested_sections:
  "stats_at (run [Push 0 ''outer'', Push 0 ''inner'', Pop 0, Pop 0]
               (fresh (mock_clock [0, 1, 3, 4, 10]))) 0 [''outer''] = Some (1, 4) \<and>
   stats_at (run [Push 0 ''outer'', Push 0 ''inner'', Pop 0, Pop 0]
               (fresh (mock_clock [0, 1, 3, 4, 10]))) 0 [''outer'', ''inner''] = Some (1, 2) \<and>
   samples_taken (run [Push 0 ''outer'', Push 0 ''inner'', Pop 0, Pop 0]
               (fresh (mock_clock [0, 1, 3, 4, 10]))) = Some 4"
  unfolding nested_run by (simp add: stats_at_def section_at_def cell_def samples_taken_def)

text \<open>
  C8: every operation (push, pop, clear) preserves the tree invariant: every context has a
  root without parent, every section reached from it is allocated, is held by the map of
  its parent under its own name, and is the parent of every section its map holds under
  that section's name; so every section of the tree is the end of exactly one list of
  keys from the root. Every state reached from a fresh profiler satisfies the invariant,
  and in such a state clear returns, and push and pop return unless a counter is at the
  largest \<^verbatim>\<open>int\<close>.
\<close>

theorem operations_keep_tree:
  "(tree_inv st \<and> step c st = Inr st' \<longrightarrow>
      tree_inv st' \<and>
      (\<forall>x \<in> set (contexts st'). \<forall>r a. toplevel x = Some r \<and> reach (heap st') r a \<longrightarrow>
         (\<exists>!ks. descend (heap st') r ks = Some a))) \<and>
   (run tr (fresh clk) = Inr st \<longrightarrow>
      tree_inv st \<and>
      (\<exists>st'. step ClearAll st = Inr st') \<and>
      (EXEC_ORDER_ID st + 2 \<le> INT_MAX \<longrightarrow> (\<exists>st'. step (Push t nm) st = Inr st')) \<and>
      ((find_context t (contexts st) = None \<longrightarrow> EXEC_ORDER_ID st < INT_MAX) \<and>
       (\<forall>a s. cell (heap st) a = Some s \<longrightarrow> call_count s < INT_MAX) \<longrightarrow>
         (\<exists>st'. step (Pop t) st = Inr st')))"
proof (intro conjI impI)
  assume h: "tree_inv st \<and> step c st = Inr st'"
  then show inv: "tree_inv st'" using step_tree_inv by blast
  show "\<forall>x \<in> set (contexts st'). \<forall>r a. toplevel x = Some r \<and> reach (heap st') r a \<longrightarrow>
         (\<exists>!ks. descend (heap st') r ks = Some a)"
  proof (intro ballI allI impI)
    fix x r a assume x: "x \<in> set (contexts st')" and r: "toplevel x = Some r \<and> reach (heap st') r a"
    from inv x r have "tree_at (heap st') r" by (auto simp: tree_inv_def context_ok_def)
    then show "\<exists>!ks. descend (heap st') r ks = Some a" using tree_at_one_path r by blast
  qed
next
  assume r: "run tr (fresh clk) = Inr st"
  have si: "state_inv st" using state_inv_fresh r by (rule run_state_inv)
  then show ti: "tree_inv st" by (simp add: state_inv_def)
  show "\<exists>st'. step ClearAll st = Inr st'" using Clear_returns[OF si] by auto
  show "\<exists>st'. step (Push t nm) st = Inr st'" if "EXEC_ORDER_ID st + 2 \<le> INT_MAX"
    using SectionPush_returns[OF ti that] by simp
  show "\<exists>st'. step (Pop t) st = Inr st'"
    if "(find_context t (contexts st) = None \<longrightarrow> EXEC_ORDER_ID st < INT_MAX) \<and>
        (\<forall>a s. cell (heap st) a = Some s \<longrightarrow> call_count s < INT_MAX)"
    using SectionPop_returns[OF si, of t] that by simp
qed

theorem operations_keep_tree_witness:
  "tree_inv ex_fresh \<and> step (Push 0 ''A'') ex_fresh = Inr ex_pushed \<and> tree_inv ex_pushed \<and>
   step (Pop 0) ex_pushed = Inr ex_popped \<and> tree_inv ex_popped \<and>
   step ClearAll ex_popped = Inr ex_cleared \<and> tree_inv ex_cleared \<and>
   run [Push 0 ''A'', Pop 0] (fresh (mock_clock [0, 5, 10, 20])) = Inr ex_popped \<and>
   (\<exists>st'. step ClearAll ex_popped = Inr st')"
proof -
  have s: "step (Push 0 ''A'') ex_fresh = Inr ex_pushed" "step (Pop 0) ex_pushed = Inr ex_popped"
    "step ClearAll ex_popped = Inr ex_cleared"
    using ex_steps by simp_all
  have r: "run [Push 0 ''A'', Pop 0] (fresh (mock_clock [0, 5, 10, 20])) = Inr ex_popped"
    using ex_steps(2,3) by (simp add: ex_fresh_def)
  have 1: "tree_inv ex_pushed"
    using operations_keep_tree[of ex_fresh "Push 0 ''A''" ex_pushed] ex_tree_inv s(1) by blast
  have 2: "tree_inv ex_popped"
    using operations_keep_tree[of ex_pushed "Pop 0" ex_popped] 1 s(2) by blast
  have 3: "tree_inv ex_cleared"
    using operations_keep_tree[of ex_popped ClearAll ex_cleared] 2 s(3) by blast
  have 4: "\<exists>st'. step ClearAll ex_popped = Inr st'"
    using operations_keep_tree[where tr = "[Push 0 ''A'', Pop 0]"
        and clk = "mock_clock [0, 5, 10, 20]" and st = ex_popped] r
    by blast
  show ?thesis using ex_tree_inv s r 1 2 3 4 by blast
qed

text \<open>
  C3: in every state in which the current section of the calling thread is the root (its
  parent is absent), pop returns and leaves every section and every context as it was; and
  the trace pop(); pop(); push("X"); pop() on a fresh profiler, with any clock, returns
  with exactly one section named "X", whose call count is 1.
\<close>

theorem pop_at_root_is_ignored:
  "(find_context t (contexts st) = Some i \<and> current (contexts st ! i) = Some a \<and>
    cell (heap st) a = Some s \<and> parent s = None \<longrightarrow>
      (\<exists>st'. SectionPop t st = Inr st' \<and> heap st' = heap st \<and> contexts st' = contexts st)) \<and>
   (\<exists>st'. run [Pop 0, Pop 0, Push 0 ''X'', Pop 0] (fresh clk) = Inr st' \<and>
      map call_count (sections_named st' ''X'') = [1])"
proof -
  have "\<exists>st'. run [Pop 0, Pop 0, Push 0 ''X'', Pop 0] (fresh clk) = Inr st' \<and>
      map call_count (sections_named st' ''X'') = [1]"
    unfolding pop_past_root_run by (simp add: sections_named_def List.map_filter_simps)
  then show ?thesis using SectionPop_at_root[of t st i a s] by auto
qed

theorem pop_at_root_is_ignored_witness:
  "find_context 0 (contexts ex_root) = Some 0 \<and> current (contexts ex_root ! 0) = Some 0 \<and>
   (\<exists>s. cell (heap ex_root) 0 = Some s \<and> parent s = None) \<and>
   (\<exists>st'. SectionPop 0 ex_root = Inr st' \<and> heap st' = heap ex_root \<and>
      contexts st' = contexts ex_root)"
proof -
  have h: "find_context 0 (contexts ex_root) = Some 0" "current (contexts ex_root ! 0) = Some 0"
    "cell (heap ex_root) 0 = Some (constructed 0)" "parent (constructed 0) = None"
    by (simp_all add: ex_root_def cell_def constructed_def)
  from pop_at_root_is_ignored[of 0 ex_root 0 0 "constructed 0" "mock_clock []"] h
  show ?thesis by blast
qed

text \<open>
  C4: pop is to keep its stop sample in a local variable, and to write no state that
  threads share. The code writes the sample to the static member \<^verbatim>\<open>end_time\<close> at
  line 115, outside the lock, and reads the member back at line 130, although the header
  describes the class as a thread-safe profiler. With the clock 0, 1, 10, 50, thread 0
  pushes "A" and thread 1 pushes "B". When each pop runs as a whole, "A" records
  10 - 0. When thread 1 runs line 115 of its pop between line 115 and the rest of the pop
  of thread 0, "A" records 50 - 0: the pop of thread 0 reads the sample of thread 1.
  Already with one thread the write shows: with the clock 0, 5, 10, 20 the member is 0
  after push("A") and 5 after the pop that follows.
\<close>

theorem pop_stop_sample_is_shared:
  "stats_at (run [Push 0 ''A'', Push 1 ''B'', Pop 0, Pop 1]
               (fresh (mock_clock [0, 1, 10, 50]))) 0 [''A''] = Some (1, 10) \<and>
   stats_at (run_events [Whole (Push 0 ''A''), Whole (Push 1 ''B''),
                         PopSample 0, PopSample 1, PopRest 0, PopRest 1]
               (fresh (mock_clock [0, 1, 10, 50]))) 0 [''A''] = Some (1, 50) \<and>
   static_end_time (run [Push 0 ''A''] (fresh (mock_clock [0, 5, 10, 20]))) = Some 0 \<and>
   static_end_time (run [Push 0 ''A'', Pop 0] (fresh (mock_clock [0, 5, 10, 20]))) = Some 5"
  unfolding race_atomic_run race_interleaved_run
  using ex_steps(2,3) by (simp add: stats_at_def section_at_def cell_def static_end_time_def ex_defs)

text \<open>
  C6: in every state reached from a fresh profiler, a push followed by a pop of the same
  thread leaves \<^verbatim>\<open>current\<close> of the context of that thread where it was before the
  push, that is where the registry lookup of the push found or put it (a new context
  starts at its root). The two calls return unless a counter is at the largest
  \<^verbatim>\<open>int\<close>.
\<close>

theorem push_pop_restores_current:
  assumes "run tr (fresh clk) = Inr st"
  shows "(GetContext t st = Inr (i, st0) \<and> SectionPush t nm st = Inr st1 \<and>
          SectionPop t st1 = Inr st2 \<longrightarrow>
            find_context t (contexts st2) = Some i \<and>
            current (contexts st2 ! i) = current (contexts st0 ! i)) \<and>
         (EXEC_ORDER_ID st + 2 \<le> INT_MAX \<and>
          (\<forall>a s. cell (heap st) a = Some s \<longrightarrow> call_count s < INT_MAX) \<longrightarrow>
            (\<exists>st1 st2. SectionPush t nm st = Inr st1 \<and> SectionPop t st1 = Inr st2))"
proof -
  have si: "state_inv st" using state_inv_fresh assms by (rule run_state_inv)
  then have "tree_inv st" by (simp add: state_inv_def)
  then show ?thesis using push_then_pop_current(1,2) push_pop_returns[OF si] by blast
qed

theorem push_pop_restores_current_witness:
  "run [] (fresh (mock_clock [0, 5, 10, 20])) = Inr ex_fresh \<and>
   GetContext 0 ex_fresh = Inr (0, ex_root) \<and>
   SectionPush 0 ''A'' ex_fresh = Inr ex_pushed \<and>
   SectionPop 0 ex_pushed = Inr ex_popped \<and>
   find_context 0 (contexts ex_popped) = Some 0 \<and>
   current (contexts ex_popped ! 0) = current (contexts ex_root ! 0)"
  using push_pop_restores_current[OF ex_fresh_run, of 0 0 ex_root "''A''" ex_pushed ex_popped]
    ex_fresh_run ex_steps
  by simp

text \<open>
  C5, as stated: a context of a thread exists in the registry if and only if the thread
  has performed a push since the start or the last clear. This fails: pop looks the
  context up with \<^verbatim>\<open>GetContext\<close> as well, which creates it. After the single call
  pop() of thread 0 on a fresh profiler the registry holds a context of thread 0, and the
  trace holds no push.
\<close>

theorem context_without_push_counterexample:
  "has_context (run [Pop 0] (fresh (mock_clock [0, 5, 10, 20]))) 0 \<and>
   \<not> list_ex (is_push_of 0) (since_clear [Pop 0])"
  by (simp add: has_context_def since_clear_def eval_defs)

text \<open>
  C5, amended: after every trace on a fresh profiler, a context of a thread exists in the
  registry if and only if the thread has performed a push or a pop since the start or
  the last clear.
\<close>

theorem context_iff_called:
  assumes "run tr (fresh clk) = Inr st"
  shows "find_context t (contexts st) \<noteq> None \<longleftrightarrow> list_ex (is_call_of t) (since_clear tr)"
  using run_threads[OF assms] find_context_None[of t "contexts st"]
  by (auto simp: fresh_def split: if_splits)

theorem context_iff_called_witness:
  "run [Pop 0] (fresh (mock_clock [0, 5, 10, 20])) = Inr (ex_root\<lparr>ticks := 1, end_time := 0\<rparr>) \<and>
   find_context 0 (contexts (ex_root\<lparr>ticks := 1, end_time := 0\<rparr>)) \<noteq> None \<and>
   list_ex (is_call_of 0) (since_clear [Pop 0]) \<and>
   find_context 1 (contexts (ex_root\<lparr>ticks := 1, end_time := 0\<rparr>)) = None \<and>
   \<not> list_ex (is_call_of 1) (since_clear [Pop 0])"
proof -
  have r: "run [Pop 0] (fresh (mock_clock [0, 5, 10, 20])) = Inr (ex_root\<lparr>ticks := 1, end_time := 0\<rparr>)"
    using ex_steps(4) by (simp add: ex_fresh_def ex_root_def eval_defs)
  have "list_ex (is_call_of 0) (since_clear [Pop 0])" "\<not> list_ex (is_call_of 1) (since_clear [Pop 0])"
    by (simp_all add: since_clear_def)
  then show ?thesis using context_iff_called[OF r, of 0] context_iff_called[OF r, of 1] r by simp
qed

text \<open>
  C7: the lookup of a child is idempotent. A second lookup of the same label at the same
  section returns the same section and changes nothing. After a push of a label under
  a section, and any calls of push and pop by any threads after it, a push of the same
  label by the same thread, when its \<^verbatim>\<open>current\<close> is that section again, moves
  \<^verbatim>\<open>current\<close> to the section the first push moved it to, and leaves every
  \<^verbatim>\<open>children\<close> map and the number of sections as they are: no sibling is created.
\<close>

theorem same_label_same_section:
  "(tree_inv st \<and> c \<in> set (contexts st) \<and> current c = Some cur \<and>
    get_or_create_child cur nm st = Inr (a, st') \<longrightarrow>
      get_or_create_child cur nm st' = Inr (a, st')) \<and>
   (tree_inv st \<and> GetContext t st = Inr (i, st0) \<and> SectionPush t nm st = Inr st1 \<and>
    run tr st1 = Inr st2 \<and> ClearAll \<notin> set tr \<and> find_context t (contexts st2) = Some j \<and>
    current (contexts st2 ! j) = current (contexts st0 ! i) \<and>
    SectionPush t nm st2 = Inr st3 \<longrightarrow>
      current (contexts st3 ! j) = current (contexts st1 ! i) \<and>
      map (map_option children) (heap st3) = map (map_option children) (heap st2))"
proof (intro conjI impI)
  assume "tree_inv st \<and> c \<in> set (contexts st) \<and> current c = Some cur \<and>
    get_or_create_child cur nm st = Inr (a, st')"
  then show "get_or_create_child cur nm st' = Inr (a, st')"
    using get_child_again[of st c cur nm a st'] by simp
next
  assume h: "tree_inv st \<and> GetContext t st = Inr (i, st0) \<and> SectionPush t nm st = Inr st1 \<and>
    run tr st1 = Inr st2 \<and> ClearAll \<notin> set tr \<and> find_context t (contexts st2) = Some j \<and>
    current (contexts st2 ! j) = current (contexts st0 ! i) \<and>
    SectionPush t nm st2 = Inr st3"
  then show "current (contexts st3 ! j) = current (contexts st1 ! i)"
    using SectionPush_again(1)[of st t i st0 nm st1 tr st2 j st3] by simp
  from h show "map (map_option children) (heap st3) = map (map_option children) (heap st2)"
    using SectionPush_again(2)[of st t i st0 nm st1 tr st2 j st3] by simp
qed

theorem same_label_same_section_witness:
  "tree_inv ex_fresh \<and> GetContext 0 ex_fresh = Inr (0, ex_root) \<and>
   SectionPush 0 ''A'' ex_fresh = Inr ex_pushed \<and> run [Pop 0] ex_pushed = Inr ex_popped \<and>
   ClearAll \<notin> set [Pop 0] \<and> find_context 0 (contexts ex_popped) = Some 0 \<and>
   current (contexts ex_popped ! 0) = current (contexts ex_root ! 0) \<and>
   SectionPush 0 ''A'' ex_popped = Inr ex_repushed \<and>
   current (contexts ex_repushed ! 0) = current (contexts ex_pushed ! 0) \<and>
   map (map_option children) (heap ex_repushed) = map (map_option children) (heap ex_popped)"
proof -
  have h: "tree_inv ex_fresh" "GetContext 0 ex_fresh = Inr (0, ex_root)"
    "SectionPush 0 ''A'' ex_fresh = Inr ex_pushed" "run [Pop 0] ex_pushed = Inr ex_popped"
    "ClearAll \<notin> set [Pop 0]" "find_context 0 (contexts ex_popped) = Some 0"
    "current (contexts ex_popped ! 0) = current (contexts ex_root ! 0)"
    "SectionPush 0 ''A'' ex_popped = Inr ex_repushed"
    using ex_tree_inv ex_steps by (simp_all add: ex_popped_def ex_root_def)
  from same_label_same_section[of ex_fresh _ _ _ _ _ 0 0 ex_root ex_pushed "[Pop 0]" ex_popped 0
      ex_repushed] h
  show ?thesis by blast
qed

text \<open>
  C10: a push without argument is the push of the label "unlabelled section": the two
  calls are the same function of the state, and when the call returns, \<^verbatim>\<open>current\<close>
  of the calling thread is a section named "unlabelled section" whose parent is the
  section that was current, and which the map of that section holds under that label.
\<close>

theorem default_label:
  "SectionPush_call t None st = SectionPush_call t (Some ''unlabelled section'') st \<and>
   (tree_inv st \<and> GetContext t st = Inr (i, st0) \<and> SectionPush_call t None st = Inr st' \<longrightarrow>
      (\<exists>cur a sa cs. current (contexts st0 ! i) = Some cur \<and>
         current (contexts st' ! i) = Some a \<and>
         cell (heap st') a = Some sa \<and> name sa = ''unlabelled section'' \<and> parent sa = Some cur \<and>
         cell (heap st') cur = Some cs \<and>
         map_of (children cs) ''unlabelled section'' = Some (Some a)))"
proof -
  have "\<exists>cur a sa cs. current (contexts st0 ! i) = Some cur \<and>
         current (contexts st' ! i) = Some a \<and>
         cell (heap st') a = Some sa \<and> name sa = ''unlabelled section'' \<and> parent sa = Some cur \<and>
         cell (heap st') cur = Some cs \<and>
         map_of (children cs) ''unlabelled section'' = Some (Some a)"
    if inv: "tree_inv st" and g: "GetContext t st = Inr (i, st0)"
      and p: "SectionPush t ''unlabelled section'' st = Inr st'"
  proof -
    from inv g p obtain cur a sa cs where f:
      "current (contexts st0 ! i) = Some cur"
      "contexts st' = (contexts st0)[i := (contexts st0 ! i)\<lparr>current := Some a\<rparr>]"
      "cell (heap st') a = Some sa" "parent sa = Some cur" "name sa = ''unlabelled section''"
      "cell (heap st') cur = Some cs" "map_of (children cs) ''unlabelled section'' = Some (Some a)"
      "i < length (contexts st0)"
      by (rule SectionPush_current)
    have "current (contexts st' ! i) = Some a" using f(2,8) by simp
    then show ?thesis using f by blast
  qed
  then show ?thesis by (simp add: SectionPush_call_def)
qed

theorem default_label_witness:
  "tree_inv ex_fresh \<and> GetContext 0 ex_fresh = Inr (0, ex_root) \<and>
   (\<exists>st'. SectionPush_call 0 None ex_fresh = Inr st' \<and>
      (\<exists>cur a sa cs. current (contexts ex_root ! 0) = Some cur \<and>
         current (contexts st' ! 0) = Some a \<and>
         cell (heap st') a = Some sa \<and> name sa = ''unlabelled section'' \<and> parent sa = Some cur \<and>
         cell (heap st') cur = Some cs \<and>
         map_of (children cs) ''unlabelled section'' = Some (Some a)))"
proof -
  have "SectionPush_call 0 None ex_fresh =
     Inr \<lparr>contexts = [\<lparr>thread_context = 0, toplevel = Some 0, current = Some 1\<rparr>],
          EXEC_ORDER_ID = 2, end_time = 0,
          heap = [Some \<lparr>call_count = 0, avg_time = 0, exec_order_id = 0, timer = 0,
                    parent = None, name = [], children = [(''unlabelled section'', Some 1)]\<rparr>,
                  Some \<lparr>call_count = 0, avg_time = 0, exec_order_id = 1, timer = 0,
                    parent = Some 0, name = ''unlabelled section'', children = []\<rparr>],
          clock = mock_clock [0, 5, 10, 20], ticks = 1\<rparr>"
    by (simp add: SectionPush_call_def ex_defs eval_defs)
  then obtain st' where p: "SectionPush_call 0 None ex_fresh = Inr st'" by blast
  from default_label[of 0 ex_fresh 0 ex_root st'] ex_tree_inv ex_steps(1) p
  show ?thesis by blast
qed

text \<open>
  C9: at every level of the rendered tree, the children of a section are listed in the
  order of the chosen mode. For every sort function that keeps the promise of
  \<^verbatim>\<open>std::sort\<close>, the vector that \<^verbatim>\<open>Display\<close> builds from a section holds exactly
  the children of its map, in ascending \<^verbatim>\<open>exec_order_id\<close> for the execution order
  and in descending \<^verbatim>\<open>avg_time * call_count\<close> for the time order; and the lines that
  \<^verbatim>\<open>Display\<close> returns for a section are, child by child in the order of that vector,
  the line of the child followed by the lines of the display of that child. In every
  state reached from a fresh profiler the display returns.
\<close>

theorem display_order:
  assumes "std_sort srt"
  shows "(children_vect srt h s sort_by = Inr v \<longrightarrow>
            mset (map (Some \<circ> fst) v) = mset (map snd (children s)) \<and>
            (\<forall>(a, sect) \<in> set v. cell h a = Some sect) \<and>
            (sort_by = SORT_EXECUTION \<longrightarrow>
               sorted_wrt (\<lambda>x y. exec_order_id (snd x) \<le> exec_order_id (snd y)) v) \<and>
            (sort_by = SORT_TIME \<longrightarrow>
               sorted_wrt (\<lambda>x y. avg_time (snd y) * real_of_int (call_count (snd y))
                              \<le> avg_time (snd x) * real_of_int (call_count (snd x))) v)) \<and>
         (DProfileSection_Display srt (Suc fuel) h a prefix sort_by = Inr rows \<longrightarrow>
            (\<exists>s v blocks. cell h a = Some s \<and> children_vect srt h s sort_by = Inr v \<and>
               length blocks = length v \<and> rows = concat blocks \<and>
               (\<forall>i<length v. \<exists>below. blocks ! i = row_of prefix (snd (v ! i)) # below \<and>
                  DProfileSection_Display srt fuel h (fst (v ! i))
                    (next_prefix prefix (Suc i = length v) @ ''| '') sort_by = Inr below))) \<and>
         (run tr (fresh clk) = Inr st \<longrightarrow> (\<exists>ls. Display srt sort_by st = Inr ls))"
proof (intro conjI impI)
  assume r: "children_vect srt h s sort_by = Inr v"
  note c = children_vect_sorted[OF assms r]
  show "mset (map (Some \<circ> fst) v) = mset (map snd (children s))" by (rule c(1))
  show "\<forall>(a, sect) \<in> set v. cell h a = Some sect" by (rule c(2))
  show "sorted_wrt (\<lambda>x y. exec_order_id (snd x) \<le> exec_order_id (snd y)) v"
    if "sort_by = SORT_EXECUTION" using that by (rule c(3))
  show "sorted_wrt (\<lambda>x y. avg_time (snd y) * real_of_int (call_count (snd y))
                              \<le> avg_time (snd x) * real_of_int (call_count (snd x))) v"
    if "sort_by = SORT_TIME" using that by (rule c(4))
next
  assume "DProfileSection_Display srt (Suc fuel) h a prefix sort_by = Inr rows"
  then obtain s v where s: "cell h a = Some s" and v: "children_vect srt h s sort_by = Inr v"
    and l: "Display_loop srt fuel h prefix sort_by v = Inr rows"
    by (auto simp: bind_res_Inr deref_Inr)
  from Display_loop_blocks[OF l] s v
  show "\<exists>s v blocks. cell h a = Some s \<and> children_vect srt h s sort_by = Inr v \<and>
               length blocks = length v \<and> rows = concat blocks \<and>
               (\<forall>i<length v. \<exists>below. blocks ! i = row_of prefix (snd (v ! i)) # below \<and>
                  DProfileSection_Display srt fuel h (fst (v ! i))
                    (next_prefix prefix (Suc i = length v) @ ''| '') sort_by = Inr below)"
    by blast
next
  assume "run tr (fresh clk) = Inr st"
  then have "state_inv st" using state_inv_fresh run_state_inv by blast
  then show "\<exists>ls. Display srt sort_by st = Inr ls" using assms by (rule Display_returns)
qed

theorem display_order_witness:
  "std_sort (insertion_sort :: (addr \<times> DProfileSection) sorter) \<and>
   children_vect insertion_sort ex_store ex_top SORT_TIME = Inr [(2, ex_slow), (1, ex_fast)] \<and>
   sorted_wrt (\<lambda>x y. avg_time (snd y) * real_of_int (call_count (snd y))
                    \<le> avg_time (snd x) * real_of_int (call_count (snd x)))
     [(2, ex_slow), (1, ex_fast)] \<and>
   children_vect insertion_sort ex_store ex_top SORT_EXECUTION = Inr [(1, ex_fast), (2, ex_slow)] \<and>
   sorted_wrt (\<lambda>x y. exec_order_id (snd x) \<le> exec_order_id (snd y)) [(1, ex_fast), (2, ex_slow)] \<and>
   DProfileSection_Display insertion_sort (Suc (Suc 0)) ex_store 0 ''| '' SORT_TIME =
     Inr [row_of ''| '' ex_slow, row_of ''| '' ex_fast]"
  using display_order[OF std_sort_insertion_sort, of ex_store ex_top SORT_TIME "[(2, ex_slow), (1, ex_fast)]"]
    display_order[OF std_sort_insertion_sort, of ex_store ex_top SORT_EXECUTION "[(1, ex_fast), (2, ex_slow)]"]
    ex_children_vect ex_display std_sort_insertion_sort
  by simp

text \<open>
  C2, the aggregation law: for a section that does not exist yet in a reachable state, and
  every trace of pushes and pops after that state, the call count of the section at the
  end is the number of durations that the pops of the trace recorded at it, and its
  average is their sum divided by their number, in real arithmetic.
\<close>

theorem aggregation_law:
  assumes "run tr0 (fresh clk) = Inr st0" and "length (heap st0) \<le> a"
    and "run tr st0 = Inr st" and "ClearAll \<notin> set tr" and "cell (heap st) a = Some s"
  shows "call_count s = int (length (durations_at a tr st0)) \<and>
         (durations_at a tr st0 \<noteq> [] \<longrightarrow>
            avg_time s = sum_list (durations_at a tr st0) / real (length (durations_at a tr st0)))"
proof -
  have inv: "tree_inv st0" using tree_inv_fresh assms(1) by (rule run_tree_inv)
  have none: "cell (heap st0) a = None" using assms(2) by (simp add: cell_def)
  then have "totals (heap st0) a = (0, 0)" by (simp add: totals_def)
  with run_totals[OF inv assms(3,4), of a] assms(2)
  have "totals (heap st) a =
      (int (length (durations_at a tr st0)), sum_list (durations_at a tr st0))"
    by simp
  then have c: "call_count s = int (length (durations_at a tr st0))"
    and t: "avg_time s * real_of_int (call_count s) = sum_list (durations_at a tr st0)"
    using assms(5) by (auto simp: totals_def)
  have "avg_time s = sum_list (durations_at a tr st0) / real (length (durations_at a tr st0))"
    if "durations_at a tr st0 \<noteq> []"
  proof -
    have n: "real (length (durations_at a tr st0)) \<noteq> 0" using that by simp
    have "avg_time s * real (length (durations_at a tr st0)) = sum_list (durations_at a tr st0)"
      using t unfolding c by simp
    then show ?thesis using n by (simp add: field_simps)
  qed
  with c show ?thesis by blast
qed

theorem aggregation_law_witness:
  "run [] (fresh (mock_clock [0, 5, 10, 20])) = Inr ex_fresh \<and> length (heap ex_fresh) \<le> 1 \<and>
   run [Push 0 ''A'', Pop 0, Push 0 ''A'', Pop 0] ex_fresh = Inr ex_twice \<and>
   ClearAll \<notin> set [Push 0 ''A'', Pop 0, Push 0 ''A'', Pop 0] \<and>
   cell (heap ex_twice) 1 = Some ex_A \<and>
   durations_at 1 [Push 0 ''A'', Pop 0, Push 0 ''A'', Pop 0] ex_fresh = [5, 10] \<and>
   call_count ex_A = 2 \<and> avg_time ex_A = (5 + 10) / 2"
proof -
  have h: "length (heap ex_fresh) \<le> 1" "ClearAll \<notin> set [Push 0 ''A'', Pop 0, Push 0 ''A'', Pop 0]"
    "cell (heap ex_twice) 1 = Some ex_A"
    by (simp_all add: ex_fresh_def fresh_def ex_twice_def cell_def)
  from aggregation_law[OF ex_fresh_run h(1) ex_twice_run h(2,3)]
  have "call_count ex_A = int (length [5, 10 :: real]) \<and>
     ([5, 10 :: real] \<noteq> [] \<longrightarrow> avg_time ex_A = sum_list [5, 10] / real (length [5, 10 :: real]))"
    unfolding ex_twice_durations .
  then have "call_count ex_A = 2" "avg_time ex_A = (5 + 10) / 2" by simp_all
  then show ?thesis using ex_fresh_run ex_twice_run h ex_twice_durations by blast
qed

end
